theory Spec2Isabelle
  imports Main "HOL-Library.Word"
begin

unbundle bit_operations_syntax

section \<open>Archive files and sector reads\<close>

text \<open>
  The four programs (exp.c, exc.c, acbmp.c, mapac.c) read an archive through
  \<^verbatim>\<open>fseek\<close> followed by \<^verbatim>\<open>fread\<close>.  An archive is its byte content together
  with the set of offsets \<^verbatim>\<open>fseek\<close> accepts.  Every \<^verbatim>\<open>fread\<close> of the sources comes
  right after an \<^verbatim>\<open>fseek\<close> (or after another \<^verbatim>\<open>fread\<close> of known size), so reads are
  positional: \<open>fread f pos n\<close> delivers \<open>n\<close> bytes from byte offset \<open>pos\<close>, or
  nothing when the file is too short for all of them.

  The programs return 0 after printing a message; the message is the error value here.
  \<open>AssertFailed\<close> is a failed \<^verbatim>\<open>assert\<close> of mapac.c, \<open>OutOfBounds\<close> an access outside
  an array, which C leaves undefined.
\<close>

type_synonym uchar = "8 word"
type_synonym ushort = "16 word"
type_synonym uint = "32 word"

datatype error =
  NullPointer | SeekError | ShortRead | CorruptDirectory | NotFound | AssertFailed | OutOfBounds

record FILE =
  content :: "uchar list"
  seekable :: "uint \<Rightarrow> bool"

definition fread :: "FILE \<Rightarrow> nat \<Rightarrow> nat \<Rightarrow> uchar list option" where
  "fread f pos n =
     (if pos + n \<le> length (content f) then Some (take n (drop pos (content f))) else None)"

text \<open>The \<^verbatim>\<open>uint\<close> and the \<^verbatim>\<open>ushort\<close> stored little-endian at the head of a byte list.\<close>

definition le32 :: "uchar list \<Rightarrow> uint" where
  "le32 bs = ucast (bs ! 0) OR push_bit 8 (ucast (bs ! 1))
               OR push_bit 16 (ucast (bs ! 2)) OR push_bit 24 (ucast (bs ! 3))"

definition le16 :: "uchar list \<Rightarrow> ushort" where
  "le16 bs = ucast (bs ! 0) OR push_bit 8 (ucast (bs ! 1))"

definition words_of :: "uchar list \<Rightarrow> uint list" where
  "words_of bs = map (\<lambda>i. le32 (drop (4 * i) bs)) [0..<length bs div 4]"

text \<open>\<^verbatim>\<open>fread(dst, sizeof(uint), n, inFile)\<close> at offset \<open>pos\<close>.\<close>

definition fread_words :: "FILE \<Rightarrow> nat \<Rightarrow> nat \<Rightarrow> uint list option" where
  "fread_words f pos n = map_option words_of (fread f pos (4 * n))"

text \<open>\<^verbatim>\<open>fseek\<close> to \<open>p\<close>, then \<^verbatim>\<open>fread\<close> of \<open>n\<close> words, with the two failures of the sources.\<close>

definition seek_words :: "FILE \<Rightarrow> uint \<Rightarrow> nat \<Rightarrow> error + uint list" where
  "seek_words f p n =
     (if \<not> seekable f p then Inl SeekError
      else case fread_words f (unat p) n of None \<Rightarrow> Inl ShortRead | Some ws \<Rightarrow> Inr ws)"

text \<open>
  Writing \<open>src\<close> into an array from index \<open>cur\<close> on: \<^verbatim>\<open>memcpy(buf + cur, src, n)\<close> on
  bytes, \<^verbatim>\<open>fread(&dir[cur], ...)\<close> on words.
\<close>

definition memcpy :: "'a list \<Rightarrow> nat \<Rightarrow> 'a list \<Rightarrow> 'a list" where
  "memcpy buf cur src = take cur buf @ src @ drop (cur + length src) buf"

section \<open>FetchFile: reassembling a record from its sector chain\<close>

text \<open>
  The \<^verbatim>\<open>while (doChain)\<close> loop of FetchFile (exp.c 67-94, exc.c 128-155, acbmp.c
  49-76).  \<open>S\<close> is \<^verbatim>\<open>SECSIZE\<close>, the sector size in words (256 in exp.c and acbmp.c,
  64 in exc.c); \<open>buf\<close> is the caller's \<^verbatim>\<open>malloc(len)\<close> buffer with whatever it held,
  \<open>cur\<close> is how far the pointer \<^verbatim>\<open>buf\<close> has been advanced; \<open>lg\<close> collects the offsets
  handed to \<^verbatim>\<open>fseek\<close>.  The loop has no bound of its own: on a cyclic chain it never
  returns, which is the value \<open>None\<close>.
\<close>

partial_function (option) FetchFile_chain ::
  "nat \<Rightarrow> FILE \<Rightarrow> uint \<Rightarrow> uint \<Rightarrow> uchar list \<Rightarrow> nat \<Rightarrow> uint list
     \<Rightarrow> ((error + uchar list) \<times> uint list) option" where
  "FetchFile_chain S f filePos len buf cur lg =
     (if \<not> seekable f filePos then Some (Inl SeekError, lg @ [filePos])
      else case fread f (unat filePos) (4 * S) of
        None \<Rightarrow> Some (Inl ShortRead, lg @ [filePos])
      | Some sec \<Rightarrow>
          let next = le32 sec AND 0x7FFFFFFF in
          if (S - 1) * 4 < unat len then
            let buf' = memcpy buf cur (take ((S - 1) * 4) (drop 4 sec)) in
            if next = 0 then Some (Inr buf', lg @ [filePos])
            else FetchFile_chain S f next (len - of_nat ((S - 1) * 4)) buf'
                   (cur + (S - 1) * 4) (lg @ [filePos])
          else
            let buf' = memcpy buf cur (take (unat len) (drop 4 sec)) in
            if next = 0 then Some (Inr buf', lg @ [filePos])
            else FetchFile_chain S f next 0 buf' cur (lg @ [filePos]))"

definition FetchFile ::
  "nat \<Rightarrow> FILE \<Rightarrow> uint \<Rightarrow> uint \<Rightarrow> uchar list \<Rightarrow> ((error + uchar list) \<times> uint list) option" where
  "FetchFile S f filePos len buf =
     (if filePos = 0 then Some (Inl NullPointer, [])
      else FetchFile_chain S f filePos len buf 0 [])"

text \<open>
  A chain of sectors as it lies in the file: the sectors read at \<open>p\<close>, at the masked
  first word of that sector, and so on, until that word masks to 0.
\<close>

fun sector_chain :: "nat \<Rightarrow> FILE \<Rightarrow> uint \<Rightarrow> uchar list list \<Rightarrow> bool" where
  "sector_chain S f p [] = (p = 0)"
| "sector_chain S f p (s # ss) =
     (p \<noteq> 0 \<and> seekable f p \<and> fread f (unat p) (4 * S) = Some s
      \<and> sector_chain S f (le32 s AND 0x7FFFFFFF) ss)"

text \<open>The payload of a chain: bytes 4 to the end of each sector, concatenated.\<close>

definition payload :: "uchar list list \<Rightarrow> uchar list" where
  "payload ss = concat (map (drop 4) ss)"

fun chain_offsets :: "uint \<Rightarrow> uchar list list \<Rightarrow> uint list" where
  "chain_offsets p [] = []"
| "chain_offsets p (s # ss) = p # chain_offsets (le32 s AND 0x7FFFFFFF) ss"

text \<open>
  A list of seek offsets in which each offset but the first is what \<open>nxt\<close> gives for
  the offset before it.
\<close>

fun linked :: "(uint \<Rightarrow> uint option) \<Rightarrow> uint list \<Rightarrow> bool" where
  "linked nxt [] = True"
| "linked nxt [p] = True"
| "linked nxt (p # q # qs) = (nxt p = Some q \<and> linked nxt (q # qs))"

section \<open>FetchFilePos: the directory lookup\<close>

text \<open>
  exp.c and acbmp.c (PORTAL.DAT, one sector of 256 words per directory node) and exc.c
  (CELL.DAT, up to four linked sectors of 64 words) have the same lookup loop and differ
  in how the local array \<^verbatim>\<open>dir\<close> of 256 words is filled.
\<close>

datatype dialect = Portal | Cell

text \<open>
  One of the three blocks \<^verbatim>\<open>if (dirPos != 0) { ... }\<close> of exc.c 187-245 (mapac.c 167-182):
  the first word of the sector at \<^verbatim>\<open>dirPos\<close> becomes \<^verbatim>\<open>dirPos\<close>, its other 63 words go to
  \<^verbatim>\<open>dir[dst]\<close> onwards.  The source reads one word and then 63; both reads succeed
  exactly when 64 words are there.
\<close>

definition cell_block ::
  "FILE \<Rightarrow> nat \<Rightarrow> uint \<times> uint list \<Rightarrow> uint list \<Rightarrow> (error + uint \<times> uint list) \<times> uint list" where
  "cell_block f dst st lg =
     (case st of (dirPos, dir) \<Rightarrow>
        if dirPos = 0 then (Inr (dirPos, dir), lg)
        else case seek_words f dirPos 64 of
          Inl e \<Rightarrow> (Inl e, lg @ [dirPos])
        | Inr ws \<Rightarrow> (Inr (ws ! 0, memcpy dir dst (tl ws)), lg @ [dirPos]))"

text \<open>
  Filling \<^verbatim>\<open>dir\<close>: exp.c 107-122 for \<open>Portal\<close>, exc.c 168-245 for \<open>Cell\<close>.  The
  result is the new content of \<^verbatim>\<open>dir\<close> and the seek log.
\<close>

fun read_dir ::
  "dialect \<Rightarrow> FILE \<Rightarrow> uint \<Rightarrow> uint list \<Rightarrow> uint list \<Rightarrow> (error + uint list) \<times> uint list" where
  "read_dir Portal f dirPos dir lg =
     (if dirPos = 0 then (Inl NullPointer, lg)
      else case seek_words f dirPos 256 of
        Inl e \<Rightarrow> (Inl e, lg @ [dirPos])
      | Inr ws \<Rightarrow> (Inr (memcpy dir 0 ws), lg @ [dirPos]))"
| "read_dir Cell f dirPos dir lg =
     (if dirPos = 0 then (Inl NullPointer, lg)
      else case seek_words f dirPos 64 of
        Inl e \<Rightarrow> (Inl e, lg @ [dirPos])
      | Inr ws \<Rightarrow>
          (case cell_block f 64 (ws ! 0, memcpy dir 0 ws) (lg @ [dirPos]) of
             (Inl e, lg1) \<Rightarrow> (Inl e, lg1)
           | (Inr st2, lg1) \<Rightarrow>
          (case cell_block f (64 * 2 - 1) st2 lg1 of
             (Inl e, lg2) \<Rightarrow> (Inl e, lg2)
           | (Inr st3, lg2) \<Rightarrow>
          (case cell_block f (64 * 3 - 2) st3 lg2 of
             (Inl e, lg3) \<Rightarrow> (Inl e, lg3)
           | (Inr st4, lg3) \<Rightarrow> (Inr (snd st4), lg3)))))"

text \<open>The first word of the sector of 64 words at \<open>p\<close>, as it stands in the file.\<close>

definition raw_next :: "FILE \<Rightarrow> uint \<Rightarrow> uint option" where
  "raw_next f p = (case seek_words f p 64 of Inl e \<Rightarrow> None | Inr ws \<Rightarrow> Some (ws ! 0))"

text \<open>
  The scan \<^verbatim>\<open>while ((i < numFiles) && (id > dir[i * 3 + NUMFILELOC + 1])) i++;\<close>.
  \<^verbatim>\<open>numFiles\<close> is below 63 when the scan runs, so \<^verbatim>\<open>i\<close> cannot wrap and is a
  natural number here.
\<close>

function scan :: "uint list \<Rightarrow> nat \<Rightarrow> uint \<Rightarrow> nat \<Rightarrow> nat" where
  "scan dir numFiles id' i =
     (if i < numFiles \<and> dir ! (i * 3 + 0x3F + 1) < id' then scan dir numFiles id' (i + 1) else i)"
  by pat_completeness auto
termination
  by (relation "measure (\<lambda>(dir, numFiles, id', i). numFiles - i)") auto

declare scan.simps [simp del]

text \<open>
  The \<^verbatim>\<open>while (1)\<close> loop of FetchFilePos.  \<open>filePos\<close> and \<open>len\<close> are the addresses the
  caller passed, \<open>mem\<close> the memory they point into.  Only the success branch stores
  through them; lines 143-144 of exp.c (\<^verbatim>\<open>filePos = 0; len = 0;\<close>) assign the local
  pointer variables just before returning 0 and leave \<open>mem\<close> as it is.  \<open>dir\<close> is
  declared outside the loop and keeps its content from one iteration to the next.
\<close>

partial_function (option) FetchFilePos_loop ::
  "dialect \<Rightarrow> FILE \<Rightarrow> uint \<Rightarrow> uint \<Rightarrow> nat \<Rightarrow> nat \<Rightarrow> (nat \<Rightarrow> uint) \<Rightarrow> uint list \<Rightarrow> uint list
     \<Rightarrow> ((error + unit) \<times> (nat \<Rightarrow> uint) \<times> uint list) option" where
  "FetchFilePos_loop d f dirPos id' filePos len mem dir lg =
     (case read_dir d f dirPos dir lg of
        (Inl e, lg') \<Rightarrow> Some (Inl e, mem, lg')
      | (Inr dir', lg') \<Rightarrow>
          let numFiles = dir' ! 0x3F in
          if 0x3F \<le> numFiles then Some (Inl CorruptDirectory, mem, lg')
          else
            let i = scan dir' (unat numFiles) id' 0 in
            if i < unat numFiles \<and> id' = dir' ! (i * 3 + 0x3F + 1) then
              Some (Inr (), mem(filePos := dir' ! (i * 3 + 0x3F + 2),
                                len := dir' ! (i * 3 + 0x3F + 3)), lg')
            else if dir' ! 1 = 0 then Some (Inl NotFound, mem, lg')
            else FetchFilePos_loop d f (dir' ! (i + 1)) id' filePos len mem dir' lg')"

text \<open>
  \<open>dir\<close> is what the uninitialised local array holds on entry.  \<open>Inr ()\<close> is the
  return value 1, \<open>Inl e\<close> the return value 0.
\<close>

definition FetchFilePos ::
  "dialect \<Rightarrow> FILE \<Rightarrow> uint \<Rightarrow> uint \<Rightarrow> nat \<Rightarrow> nat \<Rightarrow> (nat \<Rightarrow> uint) \<Rightarrow> uint list
     \<Rightarrow> ((error + unit) \<times> (nat \<Rightarrow> uint) \<times> uint list) option" where
  "FetchFilePos d f dirPos id' filePos len mem dir =
     FetchFilePos_loop d f dirPos id' filePos len mem dir []"

section \<open>Directory trees and their layout in the file\<close>

text \<open>
  A directory entry is the triple (key, offset, length).  A directory tree is a leaf with
  its entries, or an inner node with a first child and, for each entry, the child to its
  right.
\<close>

type_synonym entry = "uint \<times> uint \<times> uint"

datatype dtree = Leaf "entry list" | Inner dtree "(entry \<times> dtree) list"

text \<open>
  Modelled from the spec: the in-order traversal of section 4.3.3 (child[0], entry[0],
  child[1], entry[1], ..., child[N]), which none of the four programs implements.  It
  also states the B-tree invariant of section 3: the keys ascend strictly in this order.
\<close>

fun inorder :: "dtree \<Rightarrow> entry list"
  and inorder_kids :: "(entry \<times> dtree) list \<Rightarrow> entry list" where
  "inorder (Leaf es) = es"
| "inorder (Inner c0 ecs) = inorder c0 @ inorder_kids ecs"
| "inorder_kids [] = []"
| "inorder_kids (ec # ecs) = fst ec # inorder (snd ec) @ inorder_kids ecs"

definition keys_sorted :: "entry list \<Rightarrow> bool" where
  "keys_sorted es = sorted_wrt (<) (map fst es)"

text \<open>
  The sectors of a CELL.DAT directory node: at most \<open>n\<close> sectors of 64 words, each
  found at the first word of the one before, as that word stands in the file.
\<close>

fun cell_chain :: "FILE \<Rightarrow> nat \<Rightarrow> uint \<Rightarrow> uint list list option" where
  "cell_chain f 0 p = Some []"
| "cell_chain f (Suc n) p =
     (if p = 0 then Some []
      else case seek_words f p 64 of
        Inl e \<Rightarrow> None
      | Inr ws \<Rightarrow> map_option ((#) ws) (cell_chain f n (ws ! 0)))"

text \<open>
  Modelled from the spec: the sectors of a dialect-C directory node linked as sections 3
  and 4.3.1 say, each found at the first word of the one before masked to its low 31
  bits (\<^verbatim>\<open>S2 = S1.next_pointer & 0x7FFFFFFF\<close>).
\<close>

fun cell_chain_spec :: "FILE \<Rightarrow> nat \<Rightarrow> uint \<Rightarrow> uint list list option" where
  "cell_chain_spec f 0 p = Some []"
| "cell_chain_spec f (Suc n) p =
     (if p = 0 then Some []
      else case seek_words f p 64 of
        Inl e \<Rightarrow> None
      | Inr ws \<Rightarrow> map_option ((#) ws) (cell_chain_spec f n (ws ! 0 AND 0x7FFFFFFF)))"

text \<open>
  The words of the node at \<open>pos\<close> written contiguously: the one sector of PORTAL.DAT;
  in CELL.DAT the first sector whole, then each further sector without its first word.
\<close>

fun node_words :: "dialect \<Rightarrow> FILE \<Rightarrow> uint \<Rightarrow> uint list option" where
  "node_words Portal f pos =
     (if pos = 0 then None
      else case seek_words f pos 256 of Inl e \<Rightarrow> None | Inr ws \<Rightarrow> Some ws)"
| "node_words Cell f pos =
     (case cell_chain f 4 pos of
        None \<Rightarrow> None
      | Some [] \<Rightarrow> None
      | Some (s # ss) \<Rightarrow> Some (s @ concat (map tl ss)))"

definition entries_of :: "uint list \<Rightarrow> nat \<Rightarrow> entry list" where
  "entries_of ws n =
     map (\<lambda>i. (ws ! (i * 3 + 0x40), ws ! (i * 3 + 0x41), ws ! (i * 3 + 0x42))) [0..<n]"

text \<open>
  \<open>laid d f pos t\<close>: the tree \<open>t\<close> lies in the file at \<open>pos\<close> the way FetchFilePos reads
  it.  Word 0 of a node is its sector's next pointer, words 1, 2, ... are the children,
  word \<open>0x3F\<close> is the number of entries, the entries start at word \<open>0x40\<close>; in a
  leaf word 1 is 0.
\<close>

fun laid :: "dialect \<Rightarrow> FILE \<Rightarrow> uint \<Rightarrow> dtree \<Rightarrow> bool"
  and laid_kids :: "dialect \<Rightarrow> FILE \<Rightarrow> uint list \<Rightarrow> (entry \<times> dtree) list \<Rightarrow> bool" where
  "laid d f pos (Leaf es) =
     (case node_words d f pos of
        None \<Rightarrow> False
      | Some ws \<Rightarrow>
          length es < 0x3F \<and> 0x40 + 3 * length es \<le> length ws \<and> ws ! 0x3F = of_nat (length es)
          \<and> entries_of ws (length es) = es \<and> ws ! 1 = 0)"
| "laid d f pos (Inner c0 ecs) =
     (case node_words d f pos of
        None \<Rightarrow> False
      | Some ws \<Rightarrow>
          length ecs < 0x3F \<and> 0x40 + 3 * length ecs \<le> length ws \<and> ws ! 0x3F = of_nat (length ecs)
          \<and> entries_of ws (length ecs) = map fst ecs
          \<and> laid d f (ws ! 1) c0 \<and> laid_kids d f (drop 2 ws) ecs)"
| "laid_kids d f ps [] = True"
| "laid_kids d f ps (ec # ecs) =
     (case ps of [] \<Rightarrow> False | p # ps' \<Rightarrow> laid d f p (snd ec) \<and> laid_kids d f ps' ecs)"

text \<open>
  Modelled from the spec: the node layout of section 3 for PORTAL.DAT, where word
  \<open>0x000\<close> is the first child pointer (0 in a leaf) and words \<open>0x001..0x03E\<close> are the
  remaining child pointers.  It differs from \<open>laid\<close> in where the children are.
\<close>

fun laid_spec :: "FILE \<Rightarrow> uint \<Rightarrow> dtree \<Rightarrow> bool"
  and laid_spec_kids :: "FILE \<Rightarrow> uint list \<Rightarrow> (entry \<times> dtree) list \<Rightarrow> bool" where
  "laid_spec f pos (Leaf es) =
     (case node_words Portal f pos of
        None \<Rightarrow> False
      | Some ws \<Rightarrow>
          length es < 0x3F \<and> ws ! 0x3F = of_nat (length es)
          \<and> entries_of ws (length es) = es \<and> ws ! 0 = 0)"
| "laid_spec f pos (Inner c0 ecs) =
     (case node_words Portal f pos of
        None \<Rightarrow> False
      | Some ws \<Rightarrow>
          length ecs < 0x3F \<and> ws ! 0x3F = of_nat (length ecs)
          \<and> entries_of ws (length ecs) = map fst ecs
          \<and> laid_spec f (ws ! 0) c0 \<and> laid_spec_kids f (drop 1 ws) ecs)"
| "laid_spec_kids f ps [] = True"
| "laid_spec_kids f ps (ec # ecs) =
     (case ps of [] \<Rightarrow> False | p # ps' \<Rightarrow> laid_spec f p (snd ec) \<and> laid_spec_kids f ps' ecs)"

text \<open>What a lookup of key \<open>k\<close> in the entries \<open>es\<close> has to return.\<close>

definition outcome ::
  "entry list \<Rightarrow> uint \<Rightarrow> nat \<Rightarrow> nat \<Rightarrow> (nat \<Rightarrow> uint) \<Rightarrow> uint list
     \<Rightarrow> (error + unit) \<times> (nat \<Rightarrow> uint) \<times> uint list" where
  "outcome es k fp ln mem lg =
     (case map_of es k of
        None \<Rightarrow> (Inl NotFound, mem, lg)
      | Some v \<Rightarrow> (Inr (), mem(fp := fst v, ln := snd v), lg))"

section \<open>acbmp.c: probing for graphics, locating the palette\<close>

text \<open>
  The loops \<^verbatim>\<open>for (i = 0; i < 65536; i++) if (FetchFilePos(inFile, rootDirPtr, base | i,
  &filePos, &len)) { ... }\<close> of acbmp.c 181-282 (base \<^verbatim>\<open>0x05000000\<close>) and 284-363 (base
  \<^verbatim>\<open>0x06000000\<close>).  \<open>is\<close> is the list of the values of \<^verbatim>\<open>i\<close>, which is \<open>[0..<65536]\<close> in
  acbmp.c; \<open>fp\<close> and \<open>ln\<close> are the addresses of main's \<^verbatim>\<open>filePos\<close> and \<^verbatim>\<open>len\<close>.

  \<open>body\<close> stands for the block run at a hit: it reads the record with FetchFile, for a
  texture it looks up and reads the palette, and it writes the bitmap file.  From the key
  and the memory it gives the memory it leaves (the palette lookup stores through
  \<^verbatim>\<open>&filePos\<close> and \<^verbatim>\<open>&len\<close> again), or an error where the block ends main with
  \<^verbatim>\<open>return -1\<close> (acbmp.c 184-188, 201-206, 208-213, 217-222, 287-291, 301-306), or
  \<open>None\<close> where FetchFile does not return.

  The result is the list of hits (key, \<^verbatim>\<open>filePos\<close>, \<^verbatim>\<open>len\<close>) in the order found, and
  whether the loop ran to its end (\<open>True\<close>) or main returned from inside it (\<open>False\<close>).
\<close>

fun probe ::
  "FILE \<Rightarrow> uint \<Rightarrow> uint \<Rightarrow> nat list
     \<Rightarrow> (uint \<Rightarrow> (nat \<Rightarrow> uint) \<Rightarrow> (error + (nat \<Rightarrow> uint)) option)
     \<Rightarrow> nat \<Rightarrow> nat \<Rightarrow> (nat \<Rightarrow> uint) \<Rightarrow> uint list \<Rightarrow> (entry list \<times> bool) option" where
  "probe f rootDirPtr base [] body fp ln mem dir = Some ([], True)"
| "probe f rootDirPtr base (i # is) body fp ln mem dir =
     (case FetchFilePos Portal f rootDirPtr (base OR of_nat i) fp ln mem dir of
        None \<Rightarrow> None
      | Some (Inl e, mem', lg) \<Rightarrow> probe f rootDirPtr base is body fp ln mem' dir
      | Some (Inr u, mem', lg) \<Rightarrow>
          (case body (base OR of_nat i) mem' of
             None \<Rightarrow> None
           | Some (Inl e) \<Rightarrow> Some ([(base OR of_nat i, mem' fp, mem' ln)], False)
           | Some (Inr mem'') \<Rightarrow>
               map_option (\<lambda>(hits, fin). ((base OR of_nat i, mem' fp, mem' ln) # hits, fin))
                 (probe f rootDirPtr base is body fp ln mem'' dir)))"

text \<open>
  The hits of such a loop over the indices \<open>is\<close> on a directory that holds the entries
  \<open>es\<close>: the keys \<open>base | i\<close> that are present, with their offset and length.
\<close>

fun hits_of :: "entry list \<Rightarrow> uint \<Rightarrow> nat list \<Rightarrow> entry list" where
  "hits_of es base [] = []"
| "hits_of es base (i # is) =
     (case map_of es (base OR of_nat i) of
        None \<Rightarrow> hits_of es base is
      | Some v \<Rightarrow> (base OR of_nat i, v) # hits_of es base is)"


text \<open>\<^verbatim>\<open>((uint *)buf)[i]\<close>; reading past the end of the buffer is undefined in C.\<close>

definition word_at :: "uchar list \<Rightarrow> nat \<Rightarrow> error + uint" where
  "word_at buf i = (if 4 * i + 4 \<le> length buf then Inr (le32 (drop (4 * i) buf)) else Inl OutOfBounds)"

text \<open>
  acbmp.c 189-196: \<^verbatim>\<open>imageW = palPtrs[2]; imageH = palPtrs[3];
  palPtrs += imageH * imageW / sizeof(uint) + 4;\<close>  The product is a product of
  \<^verbatim>\<open>unsigned int\<close>, the division is the integer division of C.
\<close>

definition palPtrs_index :: "uint \<Rightarrow> uint \<Rightarrow> nat" where
  "palPtrs_index imageW imageH = unat (imageH * imageW) div 4 + 4"

definition palette_key :: "uchar list \<Rightarrow> error + uint" where
  "palette_key buf =
     (case word_at buf 2 of Inl e \<Rightarrow> Inl e | Inr imageW \<Rightarrow>
      case word_at buf 3 of Inl e \<Rightarrow> Inl e | Inr imageH \<Rightarrow>
        word_at buf (palPtrs_index imageW imageH))"

text \<open>
  acbmp.c 193-201: for a record of image type 2 the palette is looked up under
  \<^verbatim>\<open>palPtrs[0]\<close>; other image types are skipped (\<open>Inr None\<close>).
\<close>

definition texture_palette ::
  "FILE \<Rightarrow> uint \<Rightarrow> uchar list \<Rightarrow> nat \<Rightarrow> nat \<Rightarrow> (nat \<Rightarrow> uint) \<Rightarrow> uint list
     \<Rightarrow> error + ((error + unit) \<times> (nat \<Rightarrow> uint) \<times> uint list) option option" where
  "texture_palette f rootDirPtr buf fp ln mem dir =
     (case word_at buf 1 of Inl e \<Rightarrow> Inl e | Inr imageType \<Rightarrow>
      case palette_key buf of Inl e \<Rightarrow> (if imageType = 2 then Inl e else Inr None) | Inr key \<Rightarrow>
        if imageType = 2 then Inr (Some (FetchFilePos Portal f rootDirPtr key fp ln mem dir))
        else Inr None)"

text \<open>
  Modelled from the spec: the place of the palette-reference list when the image length
  is rounded up to whole words, as claim C9 reads section 3.
\<close>

definition palPtrs_index_rounded_up :: "uint \<Rightarrow> uint \<Rightarrow> nat" where
  "palPtrs_index_rounded_up imageW imageH = (unat imageW * unat imageH + 3) div 4 + 4"

section \<open>mapac.c: writing a landblock into the map\<close>

record landData =
  type :: ushort
  z :: uchar
  used :: uchar

text \<open>
  The global \<^verbatim>\<open>land[LANDSIZE][LANDSIZE]\<close> as a function of row and column, and the
  lines \<^verbatim>\<open>printf\<close> puts out (column, row, old type, old z, new type, new z).
\<close>

type_synonym land_state = "(nat \<Rightarrow> nat \<Rightarrow> landData) \<times> (nat \<times> nat \<times> ushort \<times> uchar \<times> ushort \<times> uchar) list"

text \<open>
  The body of the inner loop of writeLandData (mapac.c 136-148).  The indices are
  computed in \<^verbatim>\<open>uint\<close>; an index of 2041 or more is outside \<^verbatim>\<open>land\<close>.
\<close>

definition write_point ::
  "uchar list \<Rightarrow> uint \<Rightarrow> uint \<Rightarrow> uint \<Rightarrow> uint \<Rightarrow> land_state \<Rightarrow> land_state option" where
  "write_point sec startX startY x y st =
     (case st of (land, out) \<Rightarrow>
        let r = unat (startY - y); c = unat (startX + x) in
        if r < 2041 \<and> c < 2041 then
          let oldType = type (land r c);
              oldZ = z (land r c);
              newType = le16 (drop (12 + 2 * unat (x * 9 + y)) sec);
              newZ = sec ! (174 + unat (x * 9 + y));
              out' = (if used (land r c) \<noteq> 0 \<and> (oldType \<noteq> newType \<or> oldZ \<noteq> newZ)
                      then out @ [(c, r, oldType, oldZ, newType, newZ)] else out)
          in Some (land(r := (land r)(c := \<lparr>type = newType, z = newZ, used = 1\<rparr>)), out')
        else None)"

fun for_each :: "'i list \<Rightarrow> ('i \<Rightarrow> 's \<Rightarrow> 's option) \<Rightarrow> 's \<Rightarrow> 's option" where
  "for_each [] body s = Some s"
| "for_each (i # is) body s = (case body i s of None \<Rightarrow> None | Some s' \<Rightarrow> for_each is body s')"

definition writeLandData :: "uchar list \<Rightarrow> uint \<Rightarrow> uint \<Rightarrow> land_state \<Rightarrow> land_state option" where
  "writeLandData sec blockX blockY st =
     (let startX = blockX * 8; startY = 2041 - blockY * 8 - 1 in
      for_each [0..<9] (\<lambda>x. for_each [0..<9] (\<lambda>y.
        write_point sec startX startY (of_nat x) (of_nat y))) st)"

text \<open>
  The body of the entry loop of ReadDir (mapac.c 189-198) for entry \<open>i\<close> of the node in
  \<^verbatim>\<open>dir\<close>: a key ending in \<^verbatim>\<open>FFFF\<close> is a landblock; its sector is read and written
  into the map at the block indices taken from the second word of the sector.
\<close>

definition land_block ::
  "FILE \<Rightarrow> uint list \<Rightarrow> nat \<Rightarrow> land_state \<times> nat \<Rightarrow> error + land_state \<times> nat" where
  "land_block f dir i st =
     (case st of (ls, found) \<Rightarrow>
        if dir ! (i * 3 + 0x3F + 1) AND 0x0000FFFF = 0x0000FFFF then
          if dir ! (i * 3 + 0x3F + 3) \<noteq> 252 then Inl AssertFailed
          else if dir ! (i * 3 + 0x3F + 1) AND 0xFF000000 = 0xFF000000 then Inl AssertFailed
          else if dir ! (i * 3 + 0x3F + 1) AND 0x00FF0000 = 0x00FF0000 then Inl AssertFailed
          else if \<not> seekable f (dir ! (i * 3 + 0x3F + 2)) then Inl AssertFailed
          else case fread f (unat (dir ! (i * 3 + 0x3F + 2))) (4 * 64) of
            None \<Rightarrow> Inl AssertFailed
          | Some sec \<Rightarrow>
              (case writeLandData sec (drop_bit 24 (le32 (drop 4 sec)))
                      (drop_bit 16 (le32 (drop 4 sec) AND 0x00FF0000)) ls of
                 None \<Rightarrow> Inl OutOfBounds
               | Some ls' \<Rightarrow> Inr (ls', found + 1))
        else Inr (ls, found))"

text \<open>
  The data point writeLandData stores for column \<open>x\<close> and row \<open>y\<close> of the block:
  \<^verbatim>\<open>typeData[x * 9 + y]\<close>, \<^verbatim>\<open>zData[x * 9 + y]\<close> and \<^verbatim>\<open>used = 1\<close>.
\<close>

definition sample :: "uchar list \<Rightarrow> nat \<Rightarrow> nat \<Rightarrow> landData" where
  "sample sec x y =
     \<lparr>type = le16 (drop (12 + 2 * (x * 9 + y)) sec), z = sec ! (174 + (x * 9 + y)), used = 1\<rparr>"

text \<open>The cell of the map at row \<open>r\<close> and column \<open>c\<close> after a call that returned.\<close>

definition cell_after :: "error + land_state \<times> nat \<Rightarrow> nat \<Rightarrow> nat \<Rightarrow> landData option" where
  "cell_after res r c =
     (case res of Inl e \<Rightarrow> None | Inr ((land, out), found) \<Rightarrow> Some (land r c))"

section \<open>Example archives\<close>

text \<open>A file holding the given words, little-endian, on which every seek succeeds.\<close>

definition le_bytes :: "uint \<Rightarrow> uchar list" where
  "le_bytes w = [ucast w, ucast (drop_bit 8 w), ucast (drop_bit 16 w), ucast (drop_bit 24 w)]"

definition image_of :: "uint list \<Rightarrow> FILE" where
  "image_of ws = \<lparr>content = concat (map le_bytes ws), seekable = (\<lambda>p. True)\<rparr>"

text \<open>
  A PORTAL.DAT directory sector as FetchFilePos reads it: next pointer, children from
  word 1, the entry count at word \<open>0x3F\<close>, the entries from word \<open>0x40\<close>.
\<close>

definition mk_dir :: "uint \<Rightarrow> uint list \<Rightarrow> entry list \<Rightarrow> uint list" where
  "mk_dir nxt kids es =
     take 256 (nxt # kids @ replicate (62 - length kids) 0 @ of_nat (length es)
               # concat (map (\<lambda>(k, off, l). [k, off, l]) es) @ replicate 256 0)"

text \<open>The same node in the layout of the spec: children from word 0.\<close>

definition mk_dir_spec :: "uint list \<Rightarrow> entry list \<Rightarrow> uint list" where
  "mk_dir_spec kids es =
     take 256 (kids @ replicate (63 - length kids) 0 @ of_nat (length es)
               # concat (map (\<lambda>(k, off, l). [k, off, l]) es) @ replicate 256 0)"

text \<open>
  A tree of three nodes with the keys 5, 10, 15 and 20, its root at offset 1024, once in
  the layout of the code and once in the layout of the spec.
\<close>

definition ex_tree :: dtree where
  "ex_tree = Inner (Leaf [(5, 0x2000, 6)])
               [((10, 0x1000, 5), Leaf [(15, 0x3000, 7), (20, 0x4000, 8)])]"

definition ex_words :: "uint list" where
  "ex_words = replicate 256 0
     @ mk_dir 0 [2048, 3072] [(10, 0x1000, 5)]
     @ mk_dir 0 [] [(5, 0x2000, 6)]
     @ mk_dir 0 [] [(15, 0x3000, 7), (20, 0x4000, 8)]"

definition ex_words_spec :: "uint list" where
  "ex_words_spec = replicate 256 0
     @ mk_dir_spec [2048, 3072] [(10, 0x1000, 5)]
     @ mk_dir_spec [] [(5, 0x2000, 6)]
     @ mk_dir_spec [] [(15, 0x3000, 7), (20, 0x4000, 8)]"

text \<open>
  Two sectors of 64 words in a CELL.DAT-sized file: the one at offset \<open>0x100\<close> points
  to the one at \<open>0x200\<close> with the reserved high bit set, the second ends the chain.
\<close>

definition ex_secA :: "uchar list" where
  "ex_secA = [0, 2, 0, 0x80] @ replicate 252 1"

definition ex_secB :: "uchar list" where
  "ex_secB = [0, 0, 0, 0] @ replicate 252 2"

definition ex_chain_file :: FILE where
  "ex_chain_file = \<lparr>content = replicate 256 0 @ ex_secA @ ex_secB, seekable = (\<lambda>p. True)\<rparr>"

text \<open>
  Two CELL.DAT-sized files for directory nodes.  In \<open>ex_cell_words\<close> the node at offset
  \<open>0x100\<close> has three sectors.  In \<open>ex_hi_words\<close> the first word of the sector at
  \<open>0x100\<close> is \<open>0x200\<close> with the reserved high bit set, and a sector lies at \<open>0x200\<close>.
\<close>

definition ex_cell_words :: "uint list" where
  "ex_cell_words = replicate 64 0
     @ (0x200 # replicate 63 1) @ (0x300 # replicate 63 2) @ (0 # replicate 63 3)"

definition ex_hi_words :: "uint list" where
  "ex_hi_words = replicate 64 0 @ (0x80000200 # replicate 63 0) @ (0 # replicate 63 0)"


definition ex_gfx_words :: "uint list" where
  "ex_gfx_words = replicate 256 0
     @ mk_dir 0 [] [(0x04000001, 0x1000, 8), (0x05000001, 0x2000, 20),
                    (0x05010000, 0x3000, 20), (0x06000002, 0x4000, 16)]"

text \<open>
  A palettized graphic record, 1 by 1, with the image type 2: the four header words, the
  index byte 7 padded to a whole word, and the palette key \<open>0x04000001\<close>.
\<close>

definition ex_tex_1x1 :: "uchar list" where
  "ex_tex_1x1 = concat (map le_bytes [0x05000001, 2, 1, 1]) @ [7, 0, 0, 0] @ le_bytes 0x04000001"

text \<open>
  A landblock sector with the id \<open>0x0102FFFF\<close> at offset \<open>0x100\<close>, and a directory
  node whose first entry points to it.
\<close>

definition ex_land_sec :: "uchar list" where
  "ex_land_sec = le_bytes 0 @ le_bytes 0x0102FFFF @ le_bytes 0
                   @ replicate 162 0x41 @ replicate 81 50 @ [0]"

definition ex_land_file :: FILE where
  "ex_land_file = \<lparr>content = replicate 256 0 @ ex_land_sec, seekable = (\<lambda>p. True)\<rparr>"

definition ex_land_dir :: "uint list" where
  "ex_land_dir = (replicate 256 0)[0x40 := 0x0102FFFF, 0x41 := 0x100, 0x42 := 252]"

text \<open>
  The same directory node over a file whose sector at \<open>0x100\<close> carries another id,
  \<open>0x0304FFFF\<close>, than the key of its entry; and a map with no cell used.
\<close>

definition ex_moved_sec :: "uchar list" where
  "ex_moved_sec = le_bytes 0 @ le_bytes 0x0304FFFF @ le_bytes 0
                    @ replicate 162 0x41 @ replicate 81 50 @ [0]"

definition ex_moved_file :: FILE where
  "ex_moved_file = \<lparr>content = replicate 256 0 @ ex_moved_sec, seekable = (\<lambda>p. True)\<rparr>"

definition ex_blank_land :: land_state where
  "ex_blank_land = (\<lambda>r c. \<lparr>type = 0, z = 0, used = 0\<rparr>, [])"

text \<open>
  A CELL.DAT-sized file with a directory node of two sectors: the first word of the
  sector at \<open>0x100\<close> is \<open>0x200\<close> with the reserved high bit set, the second sector lies
  at \<open>0x200\<close> and ends the node.
\<close>

definition ex_flag_words :: "uint list" where
  "ex_flag_words = replicate 64 0 @ (0x80000200 # replicate 63 1) @ (0 # replicate 63 2)"

section \<open>Reading: basic facts\<close>

lemma fread_length: "fread f pos n = Some s \<Longrightarrow> length s = n"
  by (auto simp: fread_def split: if_splits)

lemma length_words_of: "length (words_of bs) = length bs div 4"
  by (simp add: words_of_def)

lemma seek_words_length: "seek_words f p n = Inr ws \<Longrightarrow> length ws = n"
  by (auto simp: seek_words_def fread_words_def length_words_of dest!: fread_length
      split: if_splits option.splits)

lemma memcpy_nil: "memcpy buf cur [] = buf"
  by (simp add: memcpy_def)

lemma memcpy_memcpy:
  "cur \<le> length buf \<Longrightarrow> memcpy (memcpy buf cur a) (cur + length a) b = memcpy buf cur (a @ b)"
  by (simp add: memcpy_def min_absorb2 ac_simps)

lemma memcpy_app:
  "length a = n \<Longrightarrow> memcpy (a @ r) n b = a @ b @ drop (length b) r"
  by (simp add: memcpy_def)

lemma unat_minus_of_nat:
  fixes w :: uint
  assumes "n < unat w"
  shows "unat (w - of_nat n) = unat w - n"
proof -
  have "unat w < 2 ^ 32" using unsigned_less [of w, where 'a = nat] by simp
  hence "n < 2 ^ 32" using assms by simp
  hence u: "unat (of_nat n :: uint) = n" by (simp add: unat_of_nat)
  hence "(of_nat n :: uint) \<le> w" using assms by (simp add: word_le_nat_alt)
  thus ?thesis using u by (simp add: unat_sub)
qed

lemma mask31_high: "(w AND 0x7FFFFFFF) AND 0x80000000 = (0::uint)"
  by (simp add: word_bw_assocs)

section \<open>FetchFile on a chain of sectors\<close>

lemma sector_chain_nonnull: "sector_chain S f p ss \<Longrightarrow> (p = 0) = (ss = [])"
  by (cases ss) auto

lemma sector_chain_lengths: "sector_chain S f p ss \<Longrightarrow> \<forall>s\<in>set ss. length s = 4 * S"
  by (induction ss arbitrary: p) (auto dest: fread_length)

lemma length_payload:
  "\<forall>s\<in>set ss. length s = 4 * S \<Longrightarrow> length (payload ss) = length ss * (4 * S - 4)"
  by (induction ss) (auto simp: payload_def)

text \<open>
  On a chain that ends, the loop returns: it copies the payload, cut at \<open>len\<close> bytes,
  over the buffer from \<open>cur\<close> on, and seeks exactly the offsets of the chain.
\<close>

lemma FetchFile_chain_run:
  "sector_chain S f p (s # ss) \<Longrightarrow> 1 \<le> S \<Longrightarrow> cur \<le> length buf \<Longrightarrow>
   FetchFile_chain S f p len buf cur lg =
     Some (Inr (memcpy buf cur (take (unat len) (payload (s # ss)))),
           lg @ chain_offsets p (s # ss))"
proof (induction ss arbitrary: s p len buf cur lg)
  case Nil
  from Nil.prems have rd: "fread f (unat p) (4 * S) = Some s" and sk: "seekable f p"
    and nx: "le32 s AND 0x7FFFFFFF = 0"
    by auto
  have lp: "length (drop 4 s) = (S - 1) * 4" using fread_length [OF rd] by simp
  show ?case
    apply (subst FetchFile_chain.simps)
    using rd sk nx lp by (simp add: payload_def Let_def)
next
  case (Cons t ss)
  from Cons.prems have rd: "fread f (unat p) (4 * S) = Some s" and sk: "seekable f p"
    and nx: "le32 s AND 0x7FFFFFFF \<noteq> 0"
    and ch: "sector_chain S f (le32 s AND 0x7FFFFFFF) (t # ss)"
    by (auto simp: sector_chain_nonnull)
  have lp: "length (drop 4 s) = (S - 1) * 4" using fread_length [OF rd] by simp
  have pl: "payload (s # t # ss) = drop 4 s @ payload (t # ss)" by (simp add: payload_def)
  show ?case
  proof (cases "(S - 1) * 4 < unat len")
    case True
    have un: "unat (len - of_nat ((S - 1) * 4)) = unat len - (S - 1) * 4"
      using True by (rule unat_minus_of_nat)
    have "FetchFile_chain S f p len buf cur lg =
          FetchFile_chain S f (le32 s AND 0x7FFFFFFF) (len - of_nat ((S - 1) * 4))
            (memcpy buf cur (drop 4 s)) (cur + (S - 1) * 4) (lg @ [p])"
      apply (subst FetchFile_chain.simps)
      using rd sk nx True lp by (simp add: Let_def)
    also have "\<dots> = Some (Inr (memcpy (memcpy buf cur (drop 4 s)) (cur + (S - 1) * 4)
                  (take (unat len - (S - 1) * 4) (payload (t # ss)))),
                (lg @ [p]) @ chain_offsets (le32 s AND 0x7FFFFFFF) (t # ss))"
    proof -
      have "cur + (S - 1) * 4 \<le> length (memcpy buf cur (drop 4 s))"
        using Cons.prems(3) lp by (simp add: memcpy_def)
      from Cons.IH [OF ch Cons.prems(2) this] un show ?thesis by simp
    qed
    also have "memcpy (memcpy buf cur (drop 4 s)) (cur + (S - 1) * 4)
                  (take (unat len - (S - 1) * 4) (payload (t # ss)))
             = memcpy buf cur (take (unat len) (payload (s # t # ss)))"
      using memcpy_memcpy [OF Cons.prems(3), of "drop 4 s"] lp True by (simp add: pl)
    finally show ?thesis by simp
  next
    case False
    have "FetchFile_chain S f p len buf cur lg =
          FetchFile_chain S f (le32 s AND 0x7FFFFFFF) 0
            (memcpy buf cur (take (unat len) (drop 4 s))) cur (lg @ [p])"
      apply (subst FetchFile_chain.simps)
      using rd sk nx False lp by (simp add: Let_def)
    also have "\<dots> = Some (Inr (memcpy (memcpy buf cur (take (unat len) (drop 4 s))) cur []),
                (lg @ [p]) @ chain_offsets (le32 s AND 0x7FFFFFFF) (t # ss))"
    proof -
      have "cur \<le> length (memcpy buf cur (take (unat len) (drop 4 s)))"
        using Cons.prems(3) by (simp add: memcpy_def)
      from Cons.IH [OF ch Cons.prems(2) this, of 0] show ?thesis by simp
    qed
    finally show ?thesis using False lp by (simp add: memcpy_nil pl)
  qed
qed

lemma FetchFile_run:
  assumes "sector_chain S f start secs" "secs \<noteq> []" "1 \<le> S"
  shows "FetchFile S f start len buf =
           Some (Inr (memcpy buf 0 (take (unat len) (payload secs))), chain_offsets start secs)"
proof -
  from assms(2) obtain s ss where e: "secs = s # ss" by (cases secs) auto
  with assms(1) have "start \<noteq> 0" by simp
  thus ?thesis
    using FetchFile_chain_run [OF assms(1) [unfolded e] assms(3), of 0 buf len "[]"]
    by (simp add: FetchFile_def e)
qed

text \<open>The loop never reports a null pointer: only the test before it does.\<close>

lemma FetchFile_chain_not_null:
  assumes "FetchFile_chain S f p len buf cur lg = Some y"
  shows "fst y \<noteq> Inl NullPointer"
  using assms
proof (induction rule: FetchFile_chain.raw_induct [rotated 1, consumes 1, case_names step])
  case (step loop S f p len buf cur lg y)
  show ?case
  proof (cases "seekable f p")
    case False
    with step.hyps show ?thesis by auto
  next
    case True
    show ?thesis
    proof (cases "fread f (unat p) (4 * S)")
      case None
      with True step.hyps show ?thesis by auto
    next
      case (Some sec)
      let ?n = "le32 sec AND 0x7FFFFFFF"
      show ?thesis
      proof (cases "?n = 0")
        case z: True
        with True Some step.hyps show ?thesis by (auto simp: Let_def split: if_splits)
      next
        case nz: False
        from True Some nz step.hyps obtain len' buf' cur' where
          "loop S f ?n len' buf' cur' (lg @ [p]) = Some y"
          by (auto simp: Let_def split: if_splits)
        thus ?thesis by (rule step.IH)
      qed
    qed
  qed
qed

text \<open>
  Every offset the loop seeks after the first is the first word of the sector read just
  before, masked to 31 bits.
\<close>

lemma linked_nth:
  "linked nxt qs \<Longrightarrow> Suc i < length qs \<Longrightarrow> nxt (qs ! i) = Some (qs ! Suc i)"
proof (induction nxt qs arbitrary: i rule: linked.induct)
  case (3 nxt p q qs)
  then show ?case by (cases i) auto
qed simp_all

lemma linked_Cons: "linked nxt qs \<Longrightarrow> qs \<noteq> [] \<Longrightarrow> nxt p = Some (hd qs) \<Longrightarrow> linked nxt (p # qs)"
  by (cases qs) auto

lemma linked_snoc:
  "linked nxt qs \<Longrightarrow> qs \<noteq> [] \<Longrightarrow> nxt (last qs) = Some q \<Longrightarrow> linked nxt (qs @ [q])"
proof (induction nxt qs rule: linked.induct)
  case (3 nxt p q' qs)
  then show ?case by simp
qed simp_all

lemma FetchFile_chain_linked:
  assumes "FetchFile_chain S f p len buf cur lg = Some y"
  shows "\<exists>new. snd y = lg @ p # new
           \<and> linked (\<lambda>p. map_option (\<lambda>sec. le32 sec AND 0x7FFFFFFF) (fread f (unat p) (4 * S)))
               (p # new)"
  using assms
proof (induction rule: FetchFile_chain.raw_induct [rotated 1, consumes 1, case_names step])
  case (step loop S f p len buf cur lg y)
  show ?case
  proof (cases "seekable f p")
    case False
    with step.hyps show ?thesis by auto
  next
    case True
    show ?thesis
    proof (cases "fread f (unat p) (4 * S)")
      case None
      with True step.hyps show ?thesis by auto
    next
      case (Some sec)
      let ?n = "le32 sec AND 0x7FFFFFFF"
      show ?thesis
      proof (cases "?n = 0")
        case z: True
        with True Some step.hyps show ?thesis by (auto simp: Let_def split: if_splits)
      next
        case nz: False
        from True Some nz step.hyps obtain len' buf' cur' where
          "loop S f ?n len' buf' cur' (lg @ [p]) = Some y"
          by (auto simp: Let_def split: if_splits)
        from step.IH [OF this] obtain new where
          n: "snd y = (lg @ [p]) @ ?n # new"
          and l: "linked (\<lambda>p. map_option (\<lambda>sec. le32 sec AND 0x7FFFFFFF) (fread f (unat p) (4 * S)))
                (?n # new)" by blast
        have "linked (\<lambda>p. map_option (\<lambda>sec. le32 sec AND 0x7FFFFFFF) (fread f (unat p) (4 * S)))
                (p # ?n # new)" using l Some by simp
        with n show ?thesis by simp
      qed
    qed
  qed
qed

section \<open>The example chain\<close>

lemma ex_sec_next: "le32 ex_secA = 0x80000200" "le32 ex_secB = 0"
  by (simp_all add: le32_def ex_secA_def ex_secB_def)

lemma ex_sec_length: "length ex_secA = 256" "length ex_secB = 256"
  by (simp_all add: ex_secA_def ex_secB_def)

lemma ex_chain_B: "sector_chain 64 ex_chain_file 0x200 [ex_secB]"
  by (simp add: fread_def ex_chain_file_def ex_sec_next ex_sec_length)

lemma ex_chain_AB: "sector_chain 64 ex_chain_file 0x100 [ex_secA, ex_secB]"
  by (simp add: fread_def ex_chain_file_def ex_sec_next ex_sec_length)

lemma ex_payload:
  "payload [ex_secB] = replicate 252 2"
  "payload [ex_secA, ex_secB] = replicate 252 1 @ replicate 252 2"
  by (simp_all add: payload_def ex_secA_def ex_secB_def)

lemma ceil_mult:
  fixes L P :: nat
  assumes "0 < P"
  shows "L \<le> (L + P - 1) div P * P"
proof -
  have "L + P - 1 = (L + P - 1) div P * P + (L + P - 1) mod P" by simp
  moreover have "(L + P - 1) mod P \<le> P - 1" using assms
    by (metis Suc_pred' less_Suc_eq_le mod_less_divisor)
  ultimately show ?thesis using assms by linarith
qed

section \<open>Claims about FetchFile\<close>

text \<open>
  Claim C2 (sector chain fidelity), as the code has it.  For a record of declared length
  \<open>L\<close> whose chain has exactly \<open>\<lceil>L / (sector_size - 4)\<rceil>\<close> sectors and ends with a
  masked next pointer of 0, FetchFile returns the payloads of the sectors, concatenated
  and cut at \<open>L\<close> bytes, whenever \<open>L > 0\<close>.  For \<open>L = 0\<close> the chain has no sector,
  the start offset is the null pointer, and FetchFile fails with \<open>NullPointer\<close>: it
  tests the start offset before it looks at the length.
\<close>

theorem FetchFile_chain_fidelity:
  assumes "sector_chain S f start secs" and "2 \<le> S" and "length buf = unat L"
    and "length secs = (unat L + (4 * S - 4) - 1) div (4 * S - 4)"
  shows "map_option fst (FetchFile S f start L buf)
         = Some (if L = 0 then Inl NullPointer else Inr (take (unat L) (payload secs)))"
proof (cases "L = 0")
  case True
  hence "secs = []" using assms(2,4) by simp
  hence "start = 0" using assms(1) by simp
  thus ?thesis using True by (simp add: FetchFile_def)
next
  case False
  hence L: "0 < unat L" by (simp add: unat_gt_0)
  have P: "0 < 4 * S - 4" using assms(2) by simp
  have ne: "secs \<noteq> []"
  proof
    assume "secs = []"
    hence "(unat L + (4 * S - 4) - 1) div (4 * S - 4) = 0" using assms(4) by simp
    hence "unat L + (4 * S - 4) - 1 < 4 * S - 4" using P by (simp add: div_eq_0_iff)
    thus False using L by simp
  qed
  have "length (payload secs) = length secs * (4 * S - 4)"
    using sector_chain_lengths [OF assms(1)] by (rule length_payload)
  hence "unat L \<le> length (payload secs)"
    using ceil_mult [OF P, of "unat L"] assms(4) by simp
  hence "memcpy buf 0 (take (unat L) (payload secs)) = take (unat L) (payload secs)"
    using assms(3) by (simp add: memcpy_def min_absorb2)
  thus ?thesis
    using FetchFile_run [OF assms(1) ne, of L buf] assms(2) False by simp
qed

theorem FetchFile_chain_fidelity_witness:
  "sector_chain 64 ex_chain_file 0x100 [ex_secA, ex_secB]
   \<and> map_option fst (FetchFile 64 ex_chain_file 0x100 300 (replicate 300 0xAA))
       = Some (Inr (replicate 252 1 @ replicate 48 2))"
  using FetchFile_chain_fidelity [OF ex_chain_AB, of "replicate 300 0xAA" 300] ex_chain_AB
  by (simp add: ex_payload)

text \<open>
  Claim C2 as stated fails at \<open>L = 0\<close>: the chain of \<open>\<lceil>0 / 252\<rceil> = 0\<close> sectors starts
  at the null pointer, and FetchFile returns 0 instead of an empty buffer.
\<close>

theorem FetchFile_zero_length_counterexample:
  "sector_chain 64 ex_chain_file 0 []
   \<and> length ([] :: uchar list list) = (unat (0 :: uint) + (4 * 64 - 4) - 1) div (4 * 64 - 4)
   \<and> FetchFile 64 ex_chain_file 0 0 [] = Some (Inl NullPointer, [])"
  by (simp add: FetchFile_def)

text \<open>
  Claim C4 (early null in the chain), as the code has it.  When the chain ends before
  \<open>L\<close> bytes have been copied, FetchFile returns success: the buffer starts with the
  payload of the chain and keeps its prior content from there on.  FetchFile fails with
  \<open>NullPointer\<close> exactly when the start offset is 0.
\<close>

theorem FetchFile_early_null_partial:
  "(sector_chain S f start secs \<and> secs \<noteq> [] \<and> 1 \<le> S
      \<and> length buf = unat L \<and> length (payload secs) < unat L \<longrightarrow>
      map_option fst (FetchFile S f start L buf)
        = Some (Inr (payload secs @ drop (length (payload secs)) buf)))
   \<and> ((\<exists>lg. FetchFile S f start L buf = Some (Inl NullPointer, lg)) \<longleftrightarrow> start = 0)"
proof (intro conjI impI)
  assume a: "sector_chain S f start secs \<and> secs \<noteq> [] \<and> 1 \<le> S
      \<and> length buf = unat L \<and> length (payload secs) < unat L"
  hence "FetchFile S f start L buf =
           Some (Inr (memcpy buf 0 (take (unat L) (payload secs))), chain_offsets start secs)"
    by (intro FetchFile_run) simp_all
  thus "map_option fst (FetchFile S f start L buf)
        = Some (Inr (payload secs @ drop (length (payload secs)) buf))"
    using a by (simp add: memcpy_def)
next
  show "(\<exists>lg. FetchFile S f start L buf = Some (Inl NullPointer, lg)) \<longleftrightarrow> start = 0"
  proof (cases "start = 0")
    case True
    thus ?thesis by (simp add: FetchFile_def)
  next
    case False
    have "\<And>lg. FetchFile S f start L buf \<noteq> Some (Inl NullPointer, lg)"
    proof
      fix lg assume "FetchFile S f start L buf = Some (Inl NullPointer, lg)"
      hence "FetchFile_chain S f start L buf 0 [] = Some (Inl NullPointer, lg)"
        using False by (simp add: FetchFile_def)
      from FetchFile_chain_not_null [OF this] show False by simp
    qed
    thus ?thesis using False by simp
  qed
qed

theorem FetchFile_early_null_partial_witness:
  "sector_chain 64 ex_chain_file 0x200 [ex_secB]
   \<and> length (payload [ex_secB]) < unat (300 :: uint)
   \<and> map_option fst (FetchFile 64 ex_chain_file 0x200 300 (replicate 300 0xAA))
       = Some (Inr (replicate 252 2 @ replicate 48 0xAA))
   \<and> (\<forall>lg. FetchFile 64 ex_chain_file 0x200 300 (replicate 300 0xAA)
               \<noteq> Some (Inl NullPointer, lg))"
  using FetchFile_early_null_partial [of 64 ex_chain_file "0x200" "[ex_secB]"
      "replicate 300 0xAA" 300] ex_chain_B
  by (simp add: ex_payload)

text \<open>
  Claim C4 as stated fails: a record of declared length 300 whose only sector has the
  next pointer 0 after 252 bytes is returned as a success, the last 48 bytes of the
  buffer still holding \<open>0xAA\<close>.
\<close>

theorem FetchFile_early_null_counterexample:
  "le32 ex_secB AND 0x7FFFFFFF = 0
   \<and> FetchFile 64 ex_chain_file 0x200 300 (replicate 300 0xAA)
       = Some (Inr (replicate 252 2 @ replicate 48 0xAA), [0x200])"
  apply (simp add: FetchFile_def ex_sec_next)
  apply (subst FetchFile_chain.simps)
  apply (simp add: ex_chain_file_def fread_def ex_sec_length ex_sec_next memcpy_def)
  apply (simp add: ex_secB_def)
  done

section \<open>Reading a directory node\<close>

lemma cell_chain_Cons:
  "0 < n \<Longrightarrow> cell_chain f n p = Some (s # ss) \<Longrightarrow>
   p \<noteq> 0 \<and> seek_words f p 64 = Inr s \<and> cell_chain f (n - 1) (s ! 0) = Some ss"
  by (cases n) (auto split: if_splits sum.splits)

lemma cell_chain_Nil: "0 < n \<Longrightarrow> cell_chain f n p = Some [] \<Longrightarrow> p = 0"
  by (cases n) (auto split: if_splits sum.splits)

lemma cell_chain_length: "cell_chain f n p = Some ss \<Longrightarrow> length ss \<le> n"
proof (induction n arbitrary: p ss)
  case 0
  then show ?case by simp
next
  case (Suc n)
  show ?case
  proof (cases ss)
    case Nil
    then show ?thesis by simp
  next
    case (Cons s ss')
    from cell_chain_Cons [OF _ Suc.prems [unfolded Cons]]
    have "cell_chain f n (s ! 0) = Some ss'" by simp
    with Suc.IH [of "s ! 0" ss'] Cons show ?thesis by simp
  qed
qed

lemma cell_chain_sectors: "cell_chain f n p = Some ss \<Longrightarrow> \<forall>s\<in>set ss. length s = 64"
proof (induction n arbitrary: p ss)
  case 0
  then show ?case by simp
next
  case (Suc n)
  show ?case
  proof (cases ss)
    case Nil
    then show ?thesis by simp
  next
    case (Cons s ss')
    from cell_chain_Cons [OF _ Suc.prems [unfolded Cons]]
    have "seek_words f p 64 = Inr s" "cell_chain f n (s ! 0) = Some ss'" by simp_all
    with Suc.IH [of "s ! 0" ss'] seek_words_length [of f p 64 s] Cons show ?thesis by simp
  qed
qed

lemma length_concat_tl:
  "\<forall>s\<in>set ss. length s = 64 \<Longrightarrow> length (concat (map tl ss)) = 63 * length ss"
  by (induction ss) auto

lemma cell_block_Cons:
  "0 < n \<Longrightarrow> cell_chain f n p = Some (s # ss) \<Longrightarrow>
   cell_block f dst (p, dir) lg = (Inr (s ! 0, memcpy dir dst (tl s)), lg @ [p])"
  by (drule (1) cell_chain_Cons) (simp add: cell_block_def)

lemma cell_block_done:
  "cell_block f dst (0, dir) lg = (Inr (0, dir), lg)"
  by (simp add: cell_block_def)

text \<open>
  The three blocks of exc.c put the second, third and fourth sector, each without its
  first word, right behind what is already there; what lies behind the last sector read
  is left as it was.
\<close>

lemma read_dir_Cell:
  assumes "cell_chain f 4 pos = Some (s # ss)"
  shows "fst (read_dir Cell f pos dir lg)
         = Inr (s @ concat (map tl ss) @ drop (64 + 63 * length ss) dir)"
proof -
  from cell_chain_Cons [OF _ assms] have p: "pos \<noteq> 0" and s: "seek_words f pos 64 = Inr s"
    and c3: "cell_chain f 3 (s ! 0) = Some ss"
    by simp_all
  have ls: "length s = 64" using s by (rule seek_words_length)
  have d0: "memcpy dir 0 s = s @ drop 64 dir" by (simp add: memcpy_def ls)
  show ?thesis
  proof (cases ss)
    case Nil
    from c3 [unfolded Nil] have "s ! 0 = 0" by (rule cell_chain_Nil [rotated]) simp
    thus ?thesis using p s Nil by (simp add: d0 cell_block_done)
  next
    case (Cons s2 ss2)
    with c3 have c3': "cell_chain f 3 (s ! 0) = Some (s2 # ss2)" by simp
    note b2 = cell_block_Cons [OF _ c3', simplified]
    from cell_chain_Cons [OF _ c3'] have s2: "seek_words f (s ! 0) 64 = Inr s2"
      and c2: "cell_chain f 2 (s2 ! 0) = Some ss2" by simp_all
    have ls2: "length (tl s2) = 63" using seek_words_length [OF s2] by simp
    have d1: "memcpy (s @ drop 64 dir) 64 (tl s2) = s @ tl s2 @ drop 127 dir"
      using memcpy_app [of s 64 "drop 64 dir" "tl s2"] ls ls2 by simp
    show ?thesis
    proof (cases ss2)
      case Nil
      from c2 [unfolded Nil] have "s2 ! 0 = 0" by (rule cell_chain_Nil [rotated]) simp
      thus ?thesis using p s Cons Nil by (simp add: d0 b2 d1 cell_block_done)
    next
      case (Cons s3 ss3)
      with c2 have c2': "cell_chain f 2 (s2 ! 0) = Some (s3 # ss3)" by simp
      note b3 = cell_block_Cons [OF _ c2', simplified]
      from cell_chain_Cons [OF _ c2'] have s3: "seek_words f (s2 ! 0) 64 = Inr s3"
        and c1: "cell_chain f 1 (s3 ! 0) = Some ss3" by simp_all
      have ls3: "length (tl s3) = 63" using seek_words_length [OF s3] by simp
      have d2: "memcpy (s @ tl s2 @ drop 127 dir) 127 (tl s3) = s @ tl s2 @ tl s3 @ drop 190 dir"
        using memcpy_app [of "s @ tl s2" 127 "drop 127 dir" "tl s3"] ls ls2 ls3 by simp
      show ?thesis
      proof (cases ss3)
        case Nil
        from c1 [unfolded Nil] have "s3 ! 0 = 0" by (rule cell_chain_Nil [rotated]) simp
        thus ?thesis using p s \<open>ss = s2 # ss2\<close> \<open>ss2 = s3 # ss3\<close> Nil
          by (simp add: d0 b2 d1 b3 d2 cell_block_done)
      next
        case (Cons s4 ss4)
        with c1 have c1': "cell_chain f 1 (s3 ! 0) = Some (s4 # ss4)" by simp
        note b4 = cell_block_Cons [OF _ c1', simplified]
        from cell_chain_Cons [OF _ c1'] have s4: "seek_words f (s3 ! 0) 64 = Inr s4"
          and c0: "cell_chain f 0 (s4 ! 0) = Some ss4" by simp_all
        hence e: "ss4 = []" by simp
        have ls4: "length (tl s4) = 63" using seek_words_length [OF s4] by simp
        have d3: "memcpy (s @ tl s2 @ tl s3 @ drop 190 dir) 190 (tl s4)
                  = s @ tl s2 @ tl s3 @ tl s4 @ drop 253 dir"
          using memcpy_app [of "s @ tl s2 @ tl s3" 190 "drop 190 dir" "tl s4"] ls ls2 ls3 ls4
          by simp
        show ?thesis using p s \<open>ss = s2 # ss2\<close> \<open>ss2 = s3 # ss3\<close> Cons e
          by (simp add: d0 b2 d1 b3 d2 b4 d3)
      qed
    qed
  qed
qed

lemma node_words_read_dir:
  assumes "node_words d f pos = Some ws"
  shows "pos \<noteq> 0" and "length ws \<le> 256"
    and "fst (read_dir d f pos dir lg) = Inr (ws @ drop (length ws) dir)"
proof -
  have "pos \<noteq> 0 \<and> length ws \<le> 256
        \<and> fst (read_dir d f pos dir lg) = Inr (ws @ drop (length ws) dir)"
  proof (cases d)
    case Portal
    with assms have p: "pos \<noteq> 0" and s: "seek_words f pos 256 = Inr ws"
      by (auto split: if_splits sum.splits)
    have l: "length ws = 256" using s by (rule seek_words_length)
    show ?thesis using Portal p s l by (simp add: memcpy_def)
  next
    case Cell
    with assms obtain s ss where c: "cell_chain f 4 pos = Some (s # ss)"
      and ws: "ws = s @ concat (map tl ss)"
      by (auto split: option.splits list.splits)
    from cell_chain_Cons [OF _ c] have p: "pos \<noteq> 0" and c3: "cell_chain f 3 (s ! 0) = Some ss"
      by simp_all
    have l3: "length ss \<le> 3" using c3 by (rule cell_chain_length)
    have ls: "length s = 64" "\<forall>s\<in>set ss. length s = 64"
      using cell_chain_sectors [OF c] by simp_all
    have lw: "length ws = 64 + 63 * length ss" using ls by (simp add: ws length_concat_tl)
    show ?thesis using p l3 read_dir_Cell [OF c, of dir lg] lw Cell by (simp add: ws)
  qed
  thus "pos \<noteq> 0" and "length ws \<le> 256"
    and "fst (read_dir d f pos dir lg) = Inr (ws @ drop (length ws) dir)" by simp_all
qed

lemma read_dir_pair:
  "fst (read_dir d f pos dir lg) = Inr dir' \<Longrightarrow>
   read_dir d f pos dir lg = (Inr dir', snd (read_dir d f pos dir lg))"
  by (cases "read_dir d f pos dir lg") simp

text \<open>
  The offsets read_dir seeks for a CELL.DAT node: each one after the first is the first
  word of the sector read just before, as it stands.
\<close>

lemma cell_block_linked:
  assumes "linked (raw_next f) qs" and "qs \<noteq> []" and "raw_next f (last qs) = Some (fst st)"
    and "cell_block f dst st (lg @ qs) = (r, lg')"
  shows "\<exists>qs'. lg' = lg @ qs' \<and> hd qs' = hd qs \<and> qs' \<noteq> [] \<and> linked (raw_next f) qs'
           \<and> (\<forall>st'. r = Inr st' \<longrightarrow> raw_next f (last qs') = Some (fst st'))"
proof (cases "fst st = 0")
  case True
  with assms(4) have "lg' = lg @ qs" "r = Inr st"
    by (auto simp: cell_block_def split: prod.splits)
  thus ?thesis using assms(1,2,3) by auto
next
  case False
  let ?qs = "qs @ [fst st]"
  have l: "linked (raw_next f) ?qs" using assms(1,2,3) by (rule linked_snoc)
  have h: "hd ?qs = hd qs" using assms(2) by simp
  show ?thesis
  proof (cases "seek_words f (fst st) 64")
    case (Inl e)
    with False assms(4) have "lg' = lg @ ?qs" "r = Inl e"
      by (auto simp: cell_block_def split: prod.splits)
    thus ?thesis using l h by auto
  next
    case (Inr ws)
    with False assms(4) have "lg' = lg @ ?qs" "r = Inr (ws ! 0, memcpy (snd st) dst (tl ws))"
      by (auto simp: cell_block_def split: prod.splits)
    moreover have "raw_next f (last ?qs) = Some (ws ! 0)" using Inr by (simp add: raw_next_def)
    ultimately show ?thesis using l h by auto
  qed
qed

lemma read_dir_Cell_linked:
  assumes "dirPos \<noteq> 0"
  shows "\<exists>qs. snd (read_dir Cell f dirPos dir lg) = lg @ dirPos # qs
              \<and> linked (raw_next f) (dirPos # qs)"
proof (cases "seek_words f dirPos 64")
  case (Inl e)
  thus ?thesis using assms by simp
next
  case (Inr ws)
  let ?P = "\<lambda>r lg'. \<exists>qs'. lg' = lg @ qs' \<and> hd qs' = dirPos \<and> qs' \<noteq> [] \<and> linked (raw_next f) qs'
           \<and> (\<forall>st'. r = Inr st' \<longrightarrow> raw_next f (last qs') = Some (fst st'))"
  have fin: "\<And>r lg'. ?P r lg' \<Longrightarrow> \<exists>qs. lg' = lg @ dirPos # qs \<and> linked (raw_next f) (dirPos # qs)"
  proof -
    fix r lg' assume "?P r lg'"
    then obtain qs' where q: "lg' = lg @ qs'" "hd qs' = dirPos" "qs' \<noteq> []" "linked (raw_next f) qs'"
      by blast
    then obtain qs where "qs' = dirPos # qs" by (cases qs') auto
    with q show "\<exists>qs. lg' = lg @ dirPos # qs \<and> linked (raw_next f) (dirPos # qs)" by auto
  qed
  obtain r1 lg1 where b1: "cell_block f 64 (ws ! 0, memcpy dir 0 ws) (lg @ [dirPos]) = (r1, lg1)"
    by (cases "cell_block f 64 (ws ! 0, memcpy dir 0 ws) (lg @ [dirPos])")
  have "raw_next f (last [dirPos]) = Some (fst (ws ! 0, memcpy dir 0 ws))"
    using Inr by (simp add: raw_next_def)
  from cell_block_linked [OF _ _ this b1] have p1: "?P r1 lg1" by simp
  show ?thesis
  proof (cases r1)
    case (Inl e)
    hence "snd (read_dir Cell f dirPos dir lg) = lg1" using assms Inr b1 by simp
    thus ?thesis using fin [OF p1] by simp
  next
    case st2: (Inr st2)
    from p1 st2 obtain q1 where q1: "lg1 = lg @ q1" "hd q1 = dirPos" "q1 \<noteq> []"
      "linked (raw_next f) q1" "raw_next f (last q1) = Some (fst st2)" by blast
    obtain r2 lg2 where b2: "cell_block f (64 * 2 - 1) st2 (lg @ q1) = (r2, lg2)"
      by (cases "cell_block f (64 * 2 - 1) st2 (lg @ q1)")
    from cell_block_linked [OF q1(4,3,5) b2] q1(2) have p2: "?P r2 lg2" by simp
    show ?thesis
    proof (cases r2)
      case (Inl e)
      hence "snd (read_dir Cell f dirPos dir lg) = lg2" using assms Inr b1 st2 b2 q1(1) by simp
      thus ?thesis using fin [OF p2] by simp
    next
      case st3: (Inr st3)
      from p2 st3 obtain q2 where q2: "lg2 = lg @ q2" "hd q2 = dirPos" "q2 \<noteq> []"
        "linked (raw_next f) q2" "raw_next f (last q2) = Some (fst st3)" by blast
      obtain r3 lg3 where b3: "cell_block f (64 * 3 - 2) st3 (lg @ q2) = (r3, lg3)"
        by (cases "cell_block f (64 * 3 - 2) st3 (lg @ q2)")
      from cell_block_linked [OF q2(4,3,5) b3] q2(2) have p3: "?P r3 lg3" by simp
      have "snd (read_dir Cell f dirPos dir lg) = lg3"
        using assms Inr b1 st2 b2 q1(1) st3 b3 q2(1) by (cases r3) simp_all
      thus ?thesis using fin [OF p3] by simp
    qed
  qed
qed

section \<open>The scan and one turn of the lookup loop\<close>

lemma scan_takeWhile:
  "i \<le> N \<Longrightarrow>
   scan dir N id' i
     = i + length (takeWhile (\<lambda>k. k < id') (map (\<lambda>j. dir ! (j * 3 + 0x40)) [i..<N]))"
proof (induction dir N id' i rule: scan.induct)
  case (1 dir N id' i)
  show ?case
  proof (cases "i < N")
    case True
    hence u: "[i..<N] = i # [Suc i..<N]" by (simp add: upt_conv_Cons)
    show ?thesis
      using True "1.IH" by (subst scan.simps) (simp add: u add.commute)
  next
    case False
    thus ?thesis using "1.prems" by (subst scan.simps) simp
  qed
qed

lemma map_fst_entries_of: "map fst (entries_of ws n) = map (\<lambda>j. ws ! (j * 3 + 0x40)) [0..<n]"
  by (simp add: entries_of_def comp_def)

lemma scan_entries:
  "scan dir N id' 0 = length (takeWhile (\<lambda>e. fst e < id') (entries_of dir N))"
  using scan_takeWhile [of 0 N dir id']
  by (simp add: map_fst_entries_of [symmetric] takeWhile_map comp_def)

lemma entries_of_append:
  "0x40 + 3 * n \<le> length ws \<Longrightarrow> entries_of (ws @ r) n = entries_of ws n"
  by (auto simp: entries_of_def nth_append)

lemma entries_of_nth:
  "i < n \<Longrightarrow>
   entries_of ws n ! i = (ws ! (i * 3 + 0x40), ws ! (i * 3 + 0x41), ws ! (i * 3 + 0x42))"
  by (simp add: entries_of_def)

lemma length_entries_of [simp]: "length (entries_of ws n) = n"
  by (simp add: entries_of_def)

lemma unat_of_nat_small: "N < 0x3F \<Longrightarrow> unat (of_nat N :: uint) = N"
  by (simp add: unat_of_nat)

lemma not_corrupt: "N < 0x3F \<Longrightarrow> \<not> (0x3F \<le> (of_nat N :: uint))"
  by (simp add: word_le_nat_alt unat_of_nat)

lemma idx:
  "i * 3 + 0x3F + 1 = i * 3 + (0x40::nat)"
  "i * 3 + 0x3F + 2 = i * 3 + (0x41::nat)"
  "i * 3 + 0x3F + 3 = i * 3 + (0x42::nat)"
  by simp_all

lemma loop_step:
  assumes rd: "read_dir d f pos dir lg = (Inr dir', lg')"
    and N: "dir' ! 0x3F = of_nat N" "N < 0x3F"
    and i: "i = length (takeWhile (\<lambda>e. fst e < k) (entries_of dir' N))"
  shows "FetchFilePos_loop d f pos k fp ln mem dir lg =
     (if i < N \<and> fst (entries_of dir' N ! i) = k
      then Some (Inr (), mem(fp := fst (snd (entries_of dir' N ! i)),
                             ln := snd (snd (entries_of dir' N ! i))), lg')
      else if dir' ! 1 = 0 then Some (Inl NotFound, mem, lg')
      else FetchFilePos_loop d f (dir' ! (i + 1)) k fp ln mem dir' lg')"
proof -
  have sc: "scan dir' N k 0 = i" by (simp add: scan_entries i)
  show ?thesis
  proof (cases "i < N")
    case True
    show ?thesis
      apply (subst FetchFilePos_loop.simps)
      apply (simp only: rd prod.case sum.case Let_def N unat_of_nat_small [OF N(2)]
          not_corrupt [OF N(2)] if_False sc idx)
      using True apply (simp add: entries_of_nth)
      done
  next
    case False
    show ?thesis
      apply (subst FetchFilePos_loop.simps)
      apply (simp only: rd prod.case sum.case Let_def N unat_of_nat_small [OF N(2)]
          not_corrupt [OF N(2)] if_False sc idx)
      using False apply simp
      done
  qed
qed

section \<open>Searching a tree whose keys ascend\<close>

lemma map_of_append_notin_left:
  assumes "k \<notin> fst ` set xs"
  shows "map_of (xs @ ys) k = map_of ys k"
proof -
  have "map_of xs k = None" using assms by (rule map_of_eq_None_iff [THEN iffD2])
  thus ?thesis by (simp add: map_add_def)
qed

lemma map_of_append_notin_right:
  assumes "k \<notin> fst ` set ys"
  shows "map_of (xs @ ys) k = map_of xs k"
proof -
  have "map_of ys k = None" using assms by (rule map_of_eq_None_iff [THEN iffD2])
  thus ?thesis by (simp add: map_add_def split: option.splits)
qed

lemma notin_keys_less:
  fixes k :: "'a::order"
  assumes "\<forall>x\<in>set xs. fst x < k"
  shows "k \<notin> fst ` set xs"
proof
  assume "k \<in> fst ` set xs"
  then obtain x where "x \<in> set xs" "k = fst x" by blast
  with assms show False by (metis less_irrefl)
qed

lemma notin_keys_greater:
  fixes k :: "'a::order"
  assumes "\<forall>x\<in>set xs. k < fst x"
  shows "k \<notin> fst ` set xs"
proof
  assume "k \<in> fst ` set xs"
  then obtain x where "x \<in> set xs" "k = fst x" by blast
  with assms show False by (metis less_irrefl)
qed

lemma keys_sorted_append:
  "keys_sorted (xs @ ys)
   = (keys_sorted xs \<and> keys_sorted ys \<and> (\<forall>x\<in>set xs. \<forall>y\<in>set ys. fst x < fst y))"
  by (auto simp: keys_sorted_def sorted_wrt_append)

lemma keys_sorted_Cons:
  "keys_sorted (x # ys) = (keys_sorted ys \<and> (\<forall>y\<in>set ys. fst x < fst y))"
  by (auto simp: keys_sorted_def)

text \<open>
  In an inner node whose in-order keys ascend, the index where the scan stops decides
  the search: the entry there has the key, or the key can only be in the child there.
\<close>

lemma descend_map_of:
  "keys_sorted (inorder c0 @ inorder_kids ecs) \<Longrightarrow>
   i = length (takeWhile (\<lambda>ec. fst (fst ec) < k) ecs) \<Longrightarrow>
   map_of (inorder c0 @ inorder_kids ecs) k =
     (if i < length ecs \<and> fst (fst (ecs ! i)) = k then Some (snd (fst (ecs ! i)))
      else map_of (inorder ((c0 # map snd ecs) ! i)) k)"
proof (induction ecs arbitrary: c0 i)
  case Nil
  then show ?case by simp
next
  case (Cons ec ecs)
  from Cons.prems(1) have
    s0: "\<forall>x\<in>set (inorder c0). fst x < fst (fst ec)" and
    s1: "\<forall>y\<in>set (inorder (snd ec) @ inorder_kids ecs). fst (fst ec) < fst y" and
    s2: "keys_sorted (inorder (snd ec) @ inorder_kids ecs)"
    by (auto simp: keys_sorted_append keys_sorted_Cons)
  show ?case
  proof (cases "fst (fst ec) < k")
    case True
    have "\<forall>x\<in>set (inorder c0 @ [fst ec]). fst x < k"
      using s0 True by (auto intro: less_trans)
    hence n0: "k \<notin> fst ` set (inorder c0 @ [fst ec])" by (rule notin_keys_less)
    have "inorder c0 @ inorder_kids (ec # ecs)
          = (inorder c0 @ [fst ec]) @ (inorder (snd ec) @ inorder_kids ecs)" by simp
    hence "map_of (inorder c0 @ inorder_kids (ec # ecs)) k
          = map_of (inorder (snd ec) @ inorder_kids ecs) k"
      using map_of_append_notin_left [OF n0] by (simp only:)
    also note Cons.IH [OF s2 refl]
    finally show ?thesis using True Cons.prems(2) by simp
  next
    case False
    hence i0: "i = 0" using Cons.prems(2) by simp
    show ?thesis
    proof (cases "fst (fst ec) = k")
      case True
      have n0: "k \<notin> fst ` set (inorder c0)" using s0 True by (intro notin_keys_less) simp
      have "map_of (inorder c0 @ inorder_kids (ec # ecs)) k = map_of (inorder_kids (ec # ecs)) k"
        using n0 by (rule map_of_append_notin_left)
      also have "\<dots> = Some (snd (fst ec))" using True by (cases "fst ec") auto
      finally show ?thesis using True i0 by simp
    next
      case ne: False
      with False have lt: "k < fst (fst ec)" by simp
      have "\<forall>x\<in>set (inorder_kids (ec # ecs)). k < fst x"
        using s1 lt by (auto intro: less_trans)
      hence "k \<notin> fst ` set (inorder_kids (ec # ecs))" by (rule notin_keys_greater)
      hence "map_of (inorder c0 @ inorder_kids (ec # ecs)) k = map_of (inorder c0) k"
        by (rule map_of_append_notin_right)
      thus ?thesis using ne i0 by simp
    qed
  qed
qed

lemma leaf_map_of:
  "keys_sorted es \<Longrightarrow> i = length (takeWhile (\<lambda>e. fst e < k) es) \<Longrightarrow>
   map_of es k = (if i < length es \<and> fst (es ! i) = k then Some (snd (es ! i)) else None)"
proof (induction es arbitrary: i)
  case Nil
  then show ?case by simp
next
  case (Cons e es)
  from Cons.prems(1) have s1: "\<forall>y\<in>set es. fst e < fst y" and s2: "keys_sorted es"
    by (auto simp: keys_sorted_Cons)
  show ?case
  proof (cases "fst e < k")
    case True
    thus ?thesis using Cons.IH [OF s2 refl] Cons.prems(2) by (cases e) auto
  next
    case False
    hence i0: "i = 0" using Cons.prems(2) by simp
    show ?thesis
    proof (cases "fst e = k")
      case True
      thus ?thesis using i0 by (cases e) auto
    next
      case ne: False
      with False have lt: "k < fst e" by simp
      have "\<forall>x\<in>set (e # es). k < fst x"
        using s1 lt by (auto intro: less_trans)
      hence "k \<notin> fst ` set (e # es)" by (rule notin_keys_greater)
      hence "map_of (e # es) k = None" by (rule map_of_eq_None_iff [THEN iffD2])
      thus ?thesis using ne i0 by simp
    qed
  qed
qed

lemma child_sublist:
  "i \<le> length ecs \<Longrightarrow>
   \<exists>pre post. inorder c0 @ inorder_kids ecs = pre @ inorder ((c0 # map snd ecs) ! i) @ post"
proof (induction ecs arbitrary: c0 i)
  case Nil
  have "inorder c0 @ inorder_kids [] = [] @ inorder c0 @ []" by simp
  thus ?case using Nil by (metis le_zero_eq length_0_conv list.map(1) nth_Cons_0)
next
  case (Cons ec ecs)
  show ?case
  proof (cases i)
    case 0
    have "inorder c0 @ inorder_kids (ec # ecs) = [] @ inorder c0 @ inorder_kids (ec # ecs)" by simp
    thus ?thesis using 0 by (metis nth_Cons_0)
  next
    case (Suc j)
    with Cons.prems have "j \<le> length ecs" by simp
    from Cons.IH [OF this, of "snd ec"] obtain pre post where
      "inorder (snd ec) @ inorder_kids ecs = pre @ inorder ((snd ec # map snd ecs) ! j) @ post"
      by blast
    hence "inorder c0 @ inorder_kids (ec # ecs)
           = (inorder c0 @ [fst ec] @ pre) @ inorder ((c0 # map snd (ec # ecs)) ! i) @ post"
      using Suc by simp
    thus ?thesis by blast
  qed
qed

lemma child_sorted:
  assumes "keys_sorted (inorder (Inner c0 ecs))" "i \<le> length ecs"
  shows "keys_sorted (inorder ((c0 # map snd ecs) ! i))"
proof -
  from child_sublist [OF assms(2), of c0] obtain pre post where
    e: "inorder c0 @ inorder_kids ecs = pre @ inorder ((c0 # map snd ecs) ! i) @ post" by blast
  from assms(1) have "keys_sorted (pre @ inorder ((c0 # map snd ecs) ! i) @ post)"
    by (simp only: inorder.simps e)
  thus ?thesis by (simp add: keys_sorted_append)
qed

lemma laid_kids_nth:
  "laid_kids d f ps ecs \<Longrightarrow> i < length ecs \<Longrightarrow>
   i < length ps \<and> laid d f (ps ! i) (snd (ecs ! i))"
proof (induction ecs arbitrary: ps i)
  case Nil
  then show ?case by simp
next
  case (Cons ec ecs)
  then show ?case by (cases ps; cases i) auto
qed

text \<open>
  The lookup on a tree that lies in the file and whose keys ascend: the loop returns, with
  the stored offset and length written through the two pointers when the key is in the
  tree, and with \<open>NotFound\<close> and the memory untouched when it is not.
\<close>

lemma FetchFilePos_loop_map_of:
  assumes "laid d f pos t" "keys_sorted (inorder t)" "length dir = 256"
  shows "\<exists>lg'. FetchFilePos_loop d f pos k fp ln mem dir lg
               = Some (outcome (inorder t) k fp ln mem lg')"
  using assms
proof (induction t arbitrary: pos dir lg)
  case (Leaf es)
  from Leaf.prems(1) obtain ws where nw: "node_words d f pos = Some ws"
    and N: "length es < 0x3F" and fit: "0x40 + 3 * length es \<le> length ws"
    and nf: "ws ! 0x3F = of_nat (length es)" and en: "entries_of ws (length es) = es"
    and lf: "ws ! 1 = 0"
    by (auto split: option.splits)
  let ?dir' = "ws @ drop (length ws) dir"
  let ?lg' = "snd (read_dir d f pos dir lg)"
  have rd: "read_dir d f pos dir lg = (Inr ?dir', ?lg')"
    using node_words_read_dir(3) [OF nw] by (rule read_dir_pair)
  have nf': "?dir' ! 0x3F = of_nat (length es)" using fit nf by (simp add: nth_append)
  have lf': "?dir' ! 1 = 0" using fit lf by (simp add: nth_append)
  have en': "entries_of ?dir' (length es) = es" using fit en by (simp add: entries_of_append)
  note st = loop_step [OF rd nf' N refl, of k fp ln mem, unfolded en' lf']
  note mp = leaf_map_of [OF Leaf.prems(2) [simplified] refl, of k]
  show ?case
    apply (rule exI [of _ ?lg'])
    apply (simp only: st)
    apply (simp add: outcome_def mp)
    done
next
  case (Inner c0 ecs)
  from Inner.prems(1) obtain ws where nw: "node_words d f pos = Some ws"
    and N: "length ecs < 0x3F" and fit: "0x40 + 3 * length ecs \<le> length ws"
    and nf: "ws ! 0x3F = of_nat (length ecs)" and en: "entries_of ws (length ecs) = map fst ecs"
    and l0: "laid d f (ws ! 1) c0" and lk: "laid_kids d f (drop 2 ws) ecs"
    by (auto split: option.splits)
  let ?dir' = "ws @ drop (length ws) dir"
  let ?lg' = "snd (read_dir d f pos dir lg)"
  let ?i = "length (takeWhile (\<lambda>ec. fst (fst ec) < k) ecs)"
  let ?c = "(c0 # map snd ecs) ! ?i"
  have rd: "read_dir d f pos dir lg = (Inr ?dir', ?lg')"
    using node_words_read_dir(3) [OF nw] by (rule read_dir_pair)
  have len': "length ?dir' = 256"
    using node_words_read_dir(2) [OF nw] Inner.prems(3) by simp
  have nf': "?dir' ! 0x3F = of_nat (length ecs)" using fit nf by (simp add: nth_append)
  have en': "entries_of ?dir' (length ecs) = map fst ecs"
    using fit en by (simp add: entries_of_append)
  have i_eq: "length (takeWhile (\<lambda>e. fst e < k) (map fst ecs)) = ?i"
    by (simp add: takeWhile_map comp_def)
  have ile: "?i \<le> length ecs" by (rule length_takeWhile_le)
  have nz: "?dir' ! 1 \<noteq> 0"
  proof -
    from l0 obtain ws0 where "node_words d f (ws ! 1) = Some ws0"
      by (cases c0) (auto split: option.splits)
    from node_words_read_dir(1) [OF this] show ?thesis using fit by (simp add: nth_append)
  qed
  have child: "?dir' ! (?i + 1) = ws ! (?i + 1)" using fit ile by (simp add: nth_append)
  have laid_c: "laid d f (ws ! (?i + 1)) ?c"
  proof (cases ?i)
    case 0
    thus ?thesis using l0 by simp
  next
    case (Suc j)
    hence j: "j < length ecs" using ile by simp
    have "drop 2 ws ! j = ws ! (j + 2)" using fit by (simp add: add.commute)
    with laid_kids_nth [OF lk j] show ?thesis using Suc j by simp
  qed
  have sorted_c: "keys_sorted (inorder ?c)" using Inner.prems(2) ile by (rule child_sorted)
  have IH: "\<exists>lg'. FetchFilePos_loop d f (ws ! (?i + 1)) k fp ln mem ?dir' ?lg'
               = Some (outcome (inorder ?c) k fp ln mem lg')"
  proof (cases ?i)
    case 0
    thus ?thesis using Inner.IH(1) [OF _ _ len', of "ws ! (?i + 1)" ?lg'] laid_c sorted_c by simp
  next
    case (Suc j)
    hence j: "j < length ecs" using ile by simp
    hence "ecs ! j \<in> set ecs" by simp
    moreover have "snd (ecs ! j) \<in> Basic_BNFs.snds (ecs ! j)" by (cases "ecs ! j") simp
    moreover have "?c = snd (ecs ! j)" using Suc j by simp
    ultimately show ?thesis
      using Inner.IH(2) [OF _ _ _ _ len', of "ecs ! j" "snd (ecs ! j)" "ws ! (?i + 1)" ?lg']
        laid_c sorted_c by simp
  qed
  note st = loop_step [OF rd nf' N refl, of k fp ln mem, unfolded en' i_eq]
  note mp = descend_map_of [OF Inner.prems(2) [simplified] refl, of k]
  show ?case
  proof (cases "?i < length ecs \<and> fst (fst (ecs ! ?i)) = k")
    case True
    thus ?thesis
      apply (intro exI [of _ ?lg'])
      apply (simp only: st outcome_def inorder.simps mp)
      apply simp
      done
  next
    case False
    from IH obtain lg2 where
      "FetchFilePos_loop d f (ws ! (?i + 1)) k fp ln mem ?dir' ?lg'
               = Some (outcome (inorder ?c) k fp ln mem lg2)"
      by blast
    moreover have "outcome (inorder (Inner c0 ecs)) k fp ln mem lg2
                   = outcome (inorder ?c) k fp ln mem lg2"
      using False by (simp only: outcome_def inorder.simps mp) simp
    ultimately show ?thesis
      using False nz
      apply (intro exI [of _ lg2])
      apply (simp only: st child)
      apply auto
      done
  qed
qed

section \<open>Reading the example archives back\<close>

lemma le32_le_bytes: "le32 (le_bytes w @ r) = w"
  unfolding le32_def le_bytes_def
  apply (simp)
  apply (rule bit_word_eqI)
  apply (auto simp: bit_simps)
  subgoal for n by (cases "n < 24") simp_all
  done

lemma length_le_bytes [simp]: "length (le_bytes w) = 4"
  by (simp add: le_bytes_def)

lemma length_concat_le_bytes [simp]: "length (concat (map le_bytes ws)) = 4 * length ws"
  by (induction ws) auto

lemma drop_concat_le_bytes:
  "drop (4 * k) (concat (map le_bytes ws)) = concat (map le_bytes (drop k ws))"
proof (induction ws arbitrary: k)
  case Nil
  then show ?case by simp
next
  case (Cons w ws)
  show ?case
  proof (cases k)
    case 0
    then show ?thesis by simp
  next
    case (Suc j)
    have "4 * Suc j = 4 + 4 * j" by simp
    thus ?thesis using Cons.IH [of j] Suc by (simp del: mult_Suc_right)
  qed
qed

lemma take_concat_le_bytes:
  "take (4 * n) (concat (map le_bytes ws)) = concat (map le_bytes (take n ws))"
proof (induction ws arbitrary: n)
  case Nil
  then show ?case by simp
next
  case (Cons w ws)
  show ?case
  proof (cases n)
    case 0
    then show ?thesis by simp
  next
    case (Suc j)
    have "4 * Suc j = 4 + 4 * j" by simp
    thus ?thesis using Cons.IH [of j] Suc by (simp del: mult_Suc_right)
  qed
qed

lemma words_of_concat_le_bytes: "words_of (concat (map le_bytes ws)) = ws"
proof (rule nth_equalityI)
  show "length (words_of (concat (map le_bytes ws))) = length ws"
    by (simp add: length_words_of)
next
  fix i assume "i < length (words_of (concat (map le_bytes ws)))"
  hence i: "i < length ws" by (simp add: length_words_of)
  hence "drop i ws = ws ! i # drop (Suc i) ws" by (simp add: Cons_nth_drop_Suc)
  hence "le32 (drop (4 * i) (concat (map le_bytes ws))) = ws ! i"
    by (simp add: drop_concat_le_bytes le32_le_bytes)
  thus "words_of (concat (map le_bytes ws)) ! i = ws ! i"
    using i by (simp add: words_of_def)
qed

lemma fread_words_image:
  "k + n \<le> length ws \<Longrightarrow> fread_words (image_of ws) (4 * k) n = Some (take n (drop k ws))"
  by (simp add: fread_words_def fread_def image_of_def drop_concat_le_bytes take_concat_le_bytes
      words_of_concat_le_bytes)

lemma seek_words_image:
  "4 dvd unat p \<Longrightarrow> unat p div 4 + n \<le> length ws \<Longrightarrow>
   seek_words (image_of ws) p n = Inr (take n (drop (unat p div 4) ws))"
  using fread_words_image [of "unat p div 4" n ws]
  by (simp add: seek_words_def image_of_def)

lemma length_mk_dir [simp]: "length (mk_dir nxt kids es) = 256"
  by (simp add: mk_dir_def)

lemma length_mk_dir_spec [simp]: "length (mk_dir_spec kids es) = 256"
  by (simp add: mk_dir_spec_def)

lemma ex_node_words:
  "node_words Portal (image_of ex_words) 1024 = Some (mk_dir 0 [2048, 3072] [(10, 0x1000, 5)])"
  "node_words Portal (image_of ex_words) 2048 = Some (mk_dir 0 [] [(5, 0x2000, 6)])"
  "node_words Portal (image_of ex_words) 3072
     = Some (mk_dir 0 [] [(15, 0x3000, 7), (20, 0x4000, 8)])"
  by (simp_all add: seek_words_image ex_words_def)

lemma ex_laid: "laid Portal (image_of ex_words) 1024 ex_tree"
  by (simp add: ex_node_words ex_tree_def mk_dir_def entries_of_def nth_append
      del: node_words.simps)

lemma ex_sorted: "keys_sorted (inorder ex_tree)"
  by (simp add: ex_tree_def keys_sorted_def)

section \<open>Running the lookup on the example archives\<close>

lemma read_dir_Portal_log: "p \<noteq> 0 \<Longrightarrow> snd (read_dir Portal f p dir lg) = lg @ [p]"
  by (simp split: sum.splits)

lemma Portal_step:
  assumes nw: "node_words Portal f p = Some node" and ld: "length dir = 256"
    and N: "node ! 0x3F = of_nat N" "N < 0x3F"
    and i: "i = length (takeWhile (\<lambda>e. fst e < k) (entries_of node N))"
  shows "FetchFilePos_loop Portal f p k fp ln mem dir lg =
     (if i < N \<and> fst (entries_of node N ! i) = k
      then Some (Inr (), mem(fp := fst (snd (entries_of node N ! i)),
                             ln := snd (snd (entries_of node N ! i))), lg @ [p])
      else if node ! 1 = 0 then Some (Inl NotFound, mem, lg @ [p])
      else FetchFilePos_loop Portal f (node ! (i + 1)) k fp ln mem node (lg @ [p]))"
proof -
  from nw have p: "p \<noteq> 0" and s: "seek_words f p 256 = Inr node"
    by (auto split: if_splits sum.splits)
  have l: "length node = 256" using s by (rule seek_words_length)
  have rd: "read_dir Portal f p dir lg = (Inr node, lg @ [p])"
    using p s l ld by (simp add: memcpy_def)
  show ?thesis by (rule loop_step [OF rd N i])
qed

lemma keys_sorted_distinct: "keys_sorted es \<Longrightarrow> distinct (map fst es)"
  by (simp add: keys_sorted_def strict_sorted_iff)

lemma ex_spec_node_words:
  "node_words Portal (image_of ex_words_spec) 1024
     = Some (mk_dir_spec [2048, 3072] [(10, 0x1000, 5)])"
  "node_words Portal (image_of ex_words_spec) 2048 = Some (mk_dir_spec [] [(5, 0x2000, 6)])"
  "node_words Portal (image_of ex_words_spec) 3072
     = Some (mk_dir_spec [] [(15, 0x3000, 7), (20, 0x4000, 8)])"
  by (simp_all add: seek_words_image ex_words_spec_def)

lemma ex_laid_spec: "laid_spec (image_of ex_words_spec) 1024 ex_tree"
  by (simp add: ex_spec_node_words ex_tree_def mk_dir_spec_def entries_of_def nth_append
      del: node_words.simps)

lemma takeWhile_stop:
  assumes "i \<le> length xs" and "\<forall>j<i. P (xs ! j)" and "i < length xs \<longrightarrow> \<not> P (xs ! i)"
  shows "length (takeWhile P xs) = i"
proof -
  have "takeWhile P xs = take i xs"
    using assms by (intro takeWhile_eq_take_P_nth) auto
  thus ?thesis using assms(1) by simp
qed

lemma ex_read_root:
  "read_dir Portal (image_of ex_words) 1024 (replicate 256 0) []
     = (Inr (mk_dir 0 [2048, 3072] [(10, 0x1000, 5)]), [1024])"
  by (simp add: seek_words_image ex_words_def memcpy_def)


lemma cell_chain_unfold:
  "0 < n \<Longrightarrow> cell_chain f n p =
     (if p = 0 then Some []
      else case seek_words f p 64 of
        Inl e \<Rightarrow> None
      | Inr ws \<Rightarrow> map_option ((#) ws) (cell_chain f (n - 1) (ws ! 0)))"
  by (cases n) (auto split: sum.splits)

lemma cell_chain_spec_unfold:
  "0 < n \<Longrightarrow> cell_chain_spec f n p =
     (if p = 0 then Some []
      else case seek_words f p 64 of
        Inl e \<Rightarrow> None
      | Inr ws \<Rightarrow> map_option ((#) ws) (cell_chain_spec f (n - 1) (ws ! 0 AND 0x7FFFFFFF)))"
  by (cases n) (auto split: sum.splits)

lemma length_content_image: "length (content (image_of ws)) = 4 * length ws"
  by (simp add: image_of_def)

lemma seekable_image: "seekable (image_of ws) p"
  by (simp add: image_of_def)

lemma ex_cell_chain:
  "cell_chain (image_of ex_cell_words) 4 0x100
     = Some [0x200 # replicate 63 1, 0x300 # replicate 63 2, 0 # replicate 63 3]"
  by (simp add: cell_chain_unfold seek_words_image ex_cell_words_def del: cell_chain.simps)

section \<open>Claims about the directory lookup\<close>

text \<open>
  Claim C1 (directory lookup totality), as the code has it.  Let a tree lie in the file
  the way FetchFilePos reads it (word 0 of a node is the next pointer of its sector, the
  children are words 1, 2, ..., a leaf has word 1 equal to 0), in either dialect, with
  keys that ascend strictly in order.  Then for every key of the tree the lookup returns
  1 and has stored that key's offset and length through the two pointers, and for every
  other key it returns 0 at a leaf (\<open>NotFound\<close>).  Keys are compared as unsigned 32-bit
  words and a hit needs equality.
\<close>

theorem FetchFilePos_lookup_total:
  assumes "laid d f rootDirPtr t" and "keys_sorted (inorder t)" and "length dir = 256"
  shows "((k, off, l) \<in> set (inorder t) \<longrightarrow>
            (\<exists>lg. FetchFilePos d f rootDirPtr k fp ln mem dir
                    = Some (Inr (), mem(fp := off, ln := l), lg)))
       \<and> (k \<notin> fst ` set (inorder t) \<longrightarrow>
            (\<exists>lg. FetchFilePos d f rootDirPtr k fp ln mem dir = Some (Inl NotFound, mem, lg)))"
proof -
  from FetchFilePos_loop_map_of [OF assms, of k fp ln mem "[]"] obtain lg where
    r: "FetchFilePos d f rootDirPtr k fp ln mem dir = Some (outcome (inorder t) k fp ln mem lg)"
    by (auto simp: FetchFilePos_def)
  have a: "(k, off, l) \<in> set (inorder t) \<Longrightarrow> map_of (inorder t) k = Some (off, l)"
    using keys_sorted_distinct [OF assms(2)] by simp
  have b: "k \<notin> fst ` set (inorder t) \<Longrightarrow> map_of (inorder t) k = None"
    by (rule map_of_eq_None_iff [THEN iffD2])
  show ?thesis using r a b by (auto simp: outcome_def)
qed

theorem FetchFilePos_lookup_total_witness:
  "laid Portal (image_of ex_words) 1024 ex_tree \<and> keys_sorted (inorder ex_tree)
   \<and> (\<exists>lg. FetchFilePos Portal (image_of ex_words) 1024 15 0 1 (\<lambda>a. 0) (replicate 256 0)
             = Some (Inr (), (\<lambda>a. 0)(0 := 0x3000, 1 := 7), lg))
   \<and> (\<exists>lg. FetchFilePos Portal (image_of ex_words) 1024 7 0 1 (\<lambda>a. 0) (replicate 256 0)
             = Some (Inl NotFound, (\<lambda>a. 0), lg))"
  using FetchFilePos_lookup_total [OF ex_laid ex_sorted, of "replicate 256 0" 15 "0x3000" 7 0 1 "\<lambda>a. 0"]
    FetchFilePos_lookup_total [OF ex_laid ex_sorted, of "replicate 256 0" 7 0 0 0 1 "\<lambda>a. 0"]
    ex_laid ex_sorted
  by (simp add: ex_tree_def)

text \<open>
  Claim C1 as stated, with the tree laid out in the node format of the spec (children
  from word 0), fails: key 5 is in the tree and the lookup returns \<open>NotFound\<close>, having
  gone from the root to the child right of entry 10.
\<close>

theorem FetchFilePos_spec_layout_counterexample:
  "laid_spec (image_of ex_words_spec) 1024 ex_tree \<and> keys_sorted (inorder ex_tree)
   \<and> (5, 0x2000, 6) \<in> set (inorder ex_tree)
   \<and> FetchFilePos Portal (image_of ex_words_spec) 1024 5 0 1 (\<lambda>a. 0) (replicate 256 0)
       = Some (Inl NotFound, (\<lambda>a. 0), [1024, 3072])"
proof -
  have s1: "FetchFilePos_loop Portal (image_of ex_words_spec) 1024 5 0 1 (\<lambda>a. 0) (replicate 256 0) []
        = FetchFilePos_loop Portal (image_of ex_words_spec) 3072 5 0 1 (\<lambda>a. 0)
            (mk_dir_spec [2048, 3072] [(10, 0x1000, 5)]) [1024]"
    by (subst Portal_step [OF ex_spec_node_words(1), where N = 1 and i = 0])
       (simp_all add: mk_dir_spec_def entries_of_def nth_append upt_conv_Cons)
  have s2: "FetchFilePos_loop Portal (image_of ex_words_spec) 3072 5 0 1 (\<lambda>a. 0)
            (mk_dir_spec [2048, 3072] [(10, 0x1000, 5)]) [1024]
        = Some (Inl NotFound, (\<lambda>a. 0), [1024, 3072])"
    by (subst Portal_step [OF ex_spec_node_words(3), where N = 2 and i = 0])
       (simp_all add: mk_dir_spec_def entries_of_def nth_append upt_conv_Cons)
  show ?thesis using ex_laid_spec ex_sorted s1 s2
    by (simp add: FetchFilePos_def ex_tree_def)
qed

text \<open>
  Claim C3 (leaf test and child indexing), as the code has it.  Word 0 of a node is the
  next pointer of its sector; the first child pointer is word 1 and is the leaf test.
  When the scan stops at index \<open>i\<close> and no entry there has the search key, the lookup
  returns \<open>NotFound\<close> if word 1 is 0 and otherwise goes on in the node whose offset is
  word \<open>i + 1\<close>.
\<close>

theorem FetchFilePos_descend_step:
  assumes "read_dir d f dirPos dir lg = (Inr dir', lg')"
    and "dir' ! 0x3F = of_nat N" and "N < 0x3F"
    and "i \<le> N" and "\<forall>j<i. dir' ! (j * 3 + 0x40) < k"
    and "i < N \<longrightarrow> k < dir' ! (i * 3 + 0x40)"
  shows "FetchFilePos_loop d f dirPos k fp ln mem dir lg =
           (if dir' ! 1 = 0 then Some (Inl NotFound, mem, lg')
            else FetchFilePos_loop d f (dir' ! (i + 1)) k fp ln mem dir' lg')"
proof -
  have i: "length (takeWhile (\<lambda>e. fst e < k) (entries_of dir' N)) = i"
    using assms(4,5,6) by (intro takeWhile_stop) (auto simp: entries_of_nth)
  have ne: "(i < N \<and> fst (entries_of dir' N ! i) = k) = False"
    using assms(6) by (auto simp: entries_of_nth)
  show ?thesis
    unfolding loop_step [OF assms(1,2,3) i [symmetric], of fp ln mem] ne by simp
qed

theorem FetchFilePos_descend_step_witness:
  "read_dir Portal (image_of ex_words) 1024 (replicate 256 0) []
     = (Inr (mk_dir 0 [2048, 3072] [(10, 0x1000, 5)]), [1024])
   \<and> mk_dir 0 [2048, 3072] [(10, 0x1000, 5)] ! 1 = 2048
   \<and> mk_dir 0 [2048, 3072] [(10, 0x1000, 5)] ! 2 = 3072
   \<and> FetchFilePos_loop Portal (image_of ex_words) 1024 15 0 1 (\<lambda>a. 0) (replicate 256 0) []
       = FetchFilePos_loop Portal (image_of ex_words) 3072 15 0 1 (\<lambda>a. 0)
           (mk_dir 0 [2048, 3072] [(10, 0x1000, 5)]) [1024]"
proof -
  have w: "mk_dir 0 [2048, 3072] [(10, 0x1000, 5)] ! 0x3F = of_nat 1"
    "mk_dir 0 [2048, 3072] [(10, 0x1000, 5)] ! 1 = 2048"
    "mk_dir 0 [2048, 3072] [(10, 0x1000, 5)] ! 2 = 3072"
    "mk_dir 0 [2048, 3072] [(10, 0x1000, 5)] ! 0x40 = 10"
    "mk_dir 0 [2048, 3072] [(10, 0x1000, 5)] ! Suc (Suc 0) = 3072"
    by (simp_all add: mk_dir_def nth_append)
  have "FetchFilePos_loop Portal (image_of ex_words) 1024 15 0 1 (\<lambda>a. 0) (replicate 256 0) []
       = (if mk_dir 0 [2048, 3072] [(10, 0x1000, 5)] ! 1 = 0 then Some (Inl NotFound, (\<lambda>a. 0), [1024])
          else FetchFilePos_loop Portal (image_of ex_words)
                 (mk_dir 0 [2048, 3072] [(10, 0x1000, 5)] ! (1 + 1)) 15 0 1 (\<lambda>a. 0)
                 (mk_dir 0 [2048, 3072] [(10, 0x1000, 5)]) [1024])"
    by (rule FetchFilePos_descend_step [OF ex_read_root w(1)]) (simp_all add: w)
  thus ?thesis using ex_read_root w by simp
qed

text \<open>
  Claim C3 as stated fails: word 0 of the root is 0, the root has no entry with key 15,
  and the lookup does not return \<open>NotFound\<close>: it goes on in the node at word 2 and finds
  the key there.
\<close>

theorem FetchFilePos_word0_leaf_counterexample:
  "node_words Portal (image_of ex_words) 1024 = Some (mk_dir 0 [2048, 3072] [(10, 0x1000, 5)])
   \<and> mk_dir 0 [2048, 3072] [(10, 0x1000, 5)] ! 0 = 0
   \<and> FetchFilePos Portal (image_of ex_words) 1024 15 0 1 (\<lambda>a. 0) (replicate 256 0)
       = Some (Inr (), (\<lambda>a. 0)(0 := 0x3000, 1 := 7), [1024, 3072])"
proof -
  have s1: "FetchFilePos_loop Portal (image_of ex_words) 1024 15 0 1 (\<lambda>a. 0) (replicate 256 0) []
        = FetchFilePos_loop Portal (image_of ex_words) 3072 15 0 1 (\<lambda>a. 0)
            (mk_dir 0 [2048, 3072] [(10, 0x1000, 5)]) [1024]"
    by (subst Portal_step [OF ex_node_words(1), where N = 1 and i = 1])
       (simp_all add: mk_dir_def entries_of_def nth_append upt_conv_Cons)
  have s2: "FetchFilePos_loop Portal (image_of ex_words) 3072 15 0 1 (\<lambda>a. 0)
            (mk_dir 0 [2048, 3072] [(10, 0x1000, 5)]) [1024]
        = Some (Inr (), (\<lambda>a. 0)(0 := 0x3000, 1 := 7), [1024, 3072])"
    by (subst Portal_step [OF ex_node_words(3), where N = 2 and i = 0])
       (simp_all add: mk_dir_def entries_of_def nth_append upt_conv_Cons)
  have "mk_dir 0 [2048, 3072] [(10, 0x1000, 5)] ! 0 = 0" by (simp add: mk_dir_def)
  thus ?thesis using ex_node_words(1) s1 s2 by (simp add: FetchFilePos_def)
qed

text \<open>
  Claim C5 (reconstitution of a CELL.DAT node), as the code has it.  A node of one to
  four sectors, each found at the first word of the one before as that word stands in the
  file, is read into \<^verbatim>\<open>dir\<close> as the first sector followed by the other sectors without
  their first words: sector 1 gives words 0..63, sectors 2, 3 and 4 give words 64..126,
  127..189 and 190..252.  The words behind the last sector read keep what \<^verbatim>\<open>dir\<close> held
  before.
\<close>

theorem read_dir_Cell_reconstitution:
  assumes "cell_chain f 4 pos = Some secs" and "secs \<noteq> []" and "length dir = 256"
  shows "length secs \<le> 4
       \<and> fst (read_dir Cell f pos dir lg)
           = Inr (hd secs @ concat (map tl (tl secs)) @ drop (64 + 63 * (length secs - 1)) dir)
       \<and> (\<forall>j<length secs.
             take (if j = 0 then 64 else 63)
               (drop (if j = 0 then 0 else 1 + 63 * j) (hd secs @ concat (map tl (tl secs))))
             = (if j = 0 then secs ! 0 else tl (secs ! j)))"
proof -
  from assms(2) obtain s ss where e: "secs = s # ss" by (cases secs) auto
  have c: "cell_chain f 4 pos = Some (s # ss)" using assms(1) e by simp
  have l4: "length secs \<le> 4" using assms(1) by (rule cell_chain_length)
  have ls: "length s = 64" "\<forall>t\<in>set ss. length t = 64"
    using cell_chain_sectors [OF c] by simp_all
  have rd: "fst (read_dir Cell f pos dir lg)
           = Inr (hd secs @ concat (map tl (tl secs)) @ drop (64 + 63 * (length secs - 1)) dir)"
    using read_dir_Cell [OF c, of dir lg] by (simp add: e)
  have pos: "\<forall>j<length secs.
             take (if j = 0 then 64 else 63)
               (drop (if j = 0 then 0 else 1 + 63 * j) (hd secs @ concat (map tl (tl secs))))
             = (if j = 0 then secs ! 0 else tl (secs ! j))"
  proof (intro allI impI)
    fix j assume j: "j < length secs"
    show "take (if j = 0 then 64 else 63)
               (drop (if j = 0 then 0 else 1 + 63 * j) (hd secs @ concat (map tl (tl secs))))
             = (if j = 0 then secs ! 0 else tl (secs ! j))"
    proof (cases j)
      case 0
      thus ?thesis using ls by (simp add: e)
    next
      case (Suc m)
      hence m: "m < length ss" using j e by simp
      have sp: "ss = take m ss @ ss ! m # drop (Suc m) ss" using m by (simp add: id_take_nth_drop [symmetric])
      have lt: "length (concat (map tl (take m ss))) = 63 * m"
        using length_concat_tl [of "take m ss"] ls(2) m by (auto dest: in_set_takeD simp: min_absorb2)
      have lm: "length (tl (ss ! m)) = 63" using ls(2) m by simp
      have "concat (map tl ss) = concat (map tl (take m ss)) @ tl (ss ! m) @ concat (map tl (drop (Suc m) ss))"
        by (subst sp) simp
      hence "take 63 (drop (63 * m) (concat (map tl ss))) = tl (ss ! m)"
        using lt lm by simp
      moreover have "drop (1 + 63 * Suc m) (s @ concat (map tl ss)) = drop (63 * m) (concat (map tl ss))"
        using ls(1) by simp
      ultimately show ?thesis using Suc by (simp add: e)
    qed
  qed
  show ?thesis using l4 rd pos by blast
qed

theorem read_dir_Cell_reconstitution_witness:
  "cell_chain (image_of ex_cell_words) 4 0x100
     = Some [0x200 # replicate 63 1, 0x300 # replicate 63 2, 0 # replicate 63 3]
   \<and> fst (read_dir Cell (image_of ex_cell_words) 0x100 (replicate 256 9) [])
       = Inr ((0x200 # replicate 63 1) @ replicate 63 2 @ replicate 63 3 @ replicate 66 9)"
  using read_dir_Cell_reconstitution [OF ex_cell_chain, of "replicate 256 9" "[]"] ex_cell_chain
  by simp

text \<open>
  Claim C5 as stated fails on a node whose sectors are linked by a next pointer with the
  reserved high bit set: the two sectors are there under the masked pointer, but
  exc.c seeks the pointer as it stands and gives up instead of filling \<^verbatim>\<open>dir\<close>.
\<close>

theorem read_dir_Cell_flagged_link_counterexample:
  "cell_chain_spec (image_of ex_flag_words) 4 0x100
     = Some [0x80000200 # replicate 63 1, 0 # replicate 63 2]
   \<and> read_dir Cell (image_of ex_flag_words) 0x100 (replicate 256 9) []
       = (Inl ShortRead, [0x100, 0x80000200])"
proof -
  have a: "seek_words (image_of ex_flag_words) 0x100 64 = Inr (0x80000200 # replicate 63 1)"
    "seek_words (image_of ex_flag_words) 0x200 64 = Inr (0 # replicate 63 2)"
    by (simp_all add: seek_words_image ex_flag_words_def)
  have c: "seek_words (image_of ex_flag_words) 0x80000200 64 = Inl ShortRead"
    by (simp add: seek_words_def fread_words_def fread_def seekable_image length_content_image
        ex_flag_words_def)
  have n: "cell_chain_spec (image_of ex_flag_words) 4 0x100
     = Some [0x80000200 # replicate 63 1, 0 # replicate 63 2]"
    by (simp add: cell_chain_spec_unfold a del: cell_chain_spec.simps)
  have "read_dir Cell (image_of ex_flag_words) 0x100 (replicate 256 9) []
        = (Inl ShortRead, [0x100, 0x80000200])"
    by (simp add: a c cell_block_def)
  with n show ?thesis by simp
qed

text \<open>
  Claim C6 (high-bit masking), as the code has it.  In a record's sector chain every
  offset FetchFile seeks after the start offset is the first word of the sector read just
  before, masked to its low 31 bits, so it never has the reserved high bit.  In the
  sector chain of a CELL.DAT directory node every offset sought after the first is the
  first word of the sector read just before, as it stands.
\<close>

theorem FetchFile_seeks_masked:
  "(FetchFile S f start L buf = Some (r, lg) \<longrightarrow>
      take 1 lg = (if start = 0 then [] else [start])
      \<and> (\<forall>i. Suc i < length lg \<longrightarrow>
            (\<exists>sec. fread f (unat (lg ! i)) (4 * S) = Some sec
                   \<and> lg ! Suc i = le32 sec AND 0x7FFFFFFF))
      \<and> list_all (\<lambda>p. p AND 0x80000000 = 0) (drop 1 lg))
   \<and> (dirPos \<noteq> 0 \<and> snd (read_dir Cell g dirPos dir lg0) = lg0 @ qs \<longrightarrow>
      take 1 qs = [dirPos]
      \<and> (\<forall>i. Suc i < length qs \<longrightarrow>
            (\<exists>ws. seek_words g (qs ! i) 64 = Inr ws \<and> qs ! Suc i = ws ! 0)))"
proof (intro conjI impI)
  assume run: "FetchFile S f start L buf = Some (r, lg)"
  let ?nxt = "\<lambda>p. map_option (\<lambda>sec. le32 sec AND 0x7FFFFFFF) (fread f (unat p) (4 * S))"
  have "take 1 lg = (if start = 0 then [] else [start]) \<and> linked ?nxt lg"
  proof (cases "start = 0")
    case True
    with run show ?thesis by (simp add: FetchFile_def)
  next
    case False
    with run have "FetchFile_chain S f start L buf 0 [] = Some (r, lg)"
      by (simp add: FetchFile_def)
    from FetchFile_chain_linked [OF this] show ?thesis using False by auto
  qed
  hence t: "take 1 lg = (if start = 0 then [] else [start])" and l: "linked ?nxt lg"
    by simp_all
  show "take 1 lg = (if start = 0 then [] else [start])" by (rule t)
  have n: "\<And>i. Suc i < length lg \<Longrightarrow>
            \<exists>sec. fread f (unat (lg ! i)) (4 * S) = Some sec \<and> lg ! Suc i = le32 sec AND 0x7FFFFFFF"
  proof -
    fix i assume "Suc i < length lg"
    from linked_nth [OF l this] obtain sec where
      "fread f (unat (lg ! i)) (4 * S) = Some sec" "le32 sec AND 0x7FFFFFFF = lg ! Suc i"
      by auto
    thus "\<exists>sec. fread f (unat (lg ! i)) (4 * S) = Some sec \<and> lg ! Suc i = le32 sec AND 0x7FFFFFFF"
      by auto
  qed
  thus "\<forall>i. Suc i < length lg \<longrightarrow>
            (\<exists>sec. fread f (unat (lg ! i)) (4 * S) = Some sec
                   \<and> lg ! Suc i = le32 sec AND 0x7FFFFFFF)" by blast
  show "list_all (\<lambda>p. p AND 0x80000000 = 0) (drop 1 lg)"
    unfolding list_all_length
  proof (intro allI impI)
    fix i assume "i < length (drop 1 lg)"
    hence i: "Suc i < length lg" by simp
    from n [OF i] obtain sec where "lg ! Suc i = le32 sec AND 0x7FFFFFFF" by blast
    thus "drop 1 lg ! i AND 0x80000000 = 0" using i mask31_high by simp
  qed
next
  assume a: "dirPos \<noteq> 0 \<and> snd (read_dir Cell g dirPos dir lg0) = lg0 @ qs"
  from read_dir_Cell_linked [of dirPos g dir lg0] a obtain qs' where
    q: "qs = dirPos # qs'" and l: "linked (raw_next g) qs" by auto
  show "take 1 qs = [dirPos]" using q by simp
  show "\<forall>i. Suc i < length qs \<longrightarrow>
            (\<exists>ws. seek_words g (qs ! i) 64 = Inr ws \<and> qs ! Suc i = ws ! 0)"
  proof (intro allI impI)
    fix i assume "Suc i < length qs"
    from linked_nth [OF l this]
    show "\<exists>ws. seek_words g (qs ! i) 64 = Inr ws \<and> qs ! Suc i = ws ! 0"
      by (auto simp: raw_next_def split: sum.splits)
  qed
qed

theorem FetchFile_seeks_masked_witness:
  "le32 ex_secA = 0x80000200
   \<and> FetchFile 64 ex_chain_file 0x100 300 (replicate 300 0xAA)
       = Some (Inr (replicate 252 1 @ replicate 48 2), [0x100, 0x200])
   \<and> (\<exists>sec. fread ex_chain_file (unat (0x100 :: uint)) (4 * 64) = Some sec
            \<and> (0x200 :: uint) = le32 sec AND 0x7FFFFFFF)
   \<and> snd (read_dir Cell (image_of ex_cell_words) 0x100 (replicate 256 9) [])
       = [0x100, 0x200, 0x300]
   \<and> (\<exists>ws. seek_words (image_of ex_cell_words) 0x100 64 = Inr ws \<and> (0x200 :: uint) = ws ! 0)
   \<and> (\<exists>ws. seek_words (image_of ex_cell_words) 0x200 64 = Inr ws \<and> (0x300 :: uint) = ws ! 0)"
proof -
  have run: "FetchFile 64 ex_chain_file 0x100 300 (replicate 300 0xAA)
       = Some (Inr (replicate 252 1 @ replicate 48 2), [0x100, 0x200])"
    using FetchFile_run [OF ex_chain_AB, of 300 "replicate 300 0xAA"]
    by (simp add: ex_payload memcpy_def ex_sec_next)
  have sw: "seek_words (image_of ex_cell_words) 0x100 64 = Inr (0x200 # replicate 63 1)"
    "seek_words (image_of ex_cell_words) 0x200 64 = Inr (0x300 # replicate 63 2)"
    "seek_words (image_of ex_cell_words) 0x300 64 = Inr (0 # replicate 63 3)"
    by (simp_all add: seek_words_image ex_cell_words_def)
  have rd: "snd (read_dir Cell (image_of ex_cell_words) 0x100 (replicate 256 9) [])
       = [] @ [0x100, 0x200, 0x300]"
    by (simp add: sw cell_block_def)
  note t = FetchFile_seeks_masked [of 64 ex_chain_file "0x100" 300 "replicate 300 0xAA"
      "Inr (replicate 252 1 @ replicate 48 2)" "[0x100, 0x200]"
      "0x100" "image_of ex_cell_words" "replicate 256 9" "[]" "[0x100, 0x200, 0x300]"]
  from t run rd have
    a: "\<forall>i. Suc i < length [0x100, 0x200 :: uint] \<longrightarrow>
            (\<exists>sec. fread ex_chain_file (unat ([0x100, 0x200 :: uint] ! i)) (4 * 64) = Some sec
                   \<and> [0x100, 0x200 :: uint] ! Suc i = le32 sec AND 0x7FFFFFFF)"
    and b: "\<forall>i. Suc i < length [0x100, 0x200, 0x300 :: uint] \<longrightarrow>
            (\<exists>ws. seek_words (image_of ex_cell_words) ([0x100, 0x200, 0x300 :: uint] ! i) 64 = Inr ws
                  \<and> [0x100, 0x200, 0x300 :: uint] ! Suc i = ws ! 0)"
    by simp_all
  from a [rule_format, of 0] b [rule_format, of 0] b [rule_format, of 1] run rd
  show ?thesis by (simp add: ex_sec_next)
qed

text \<open>
  Claim C6 as stated fails for directory nodes: exc.c follows the first word of a
  directory sector as it stands.  Here that word is \<open>0x80000200\<close>; a sector lies at the
  masked offset \<open>0x200\<close>, but the lookup seeks \<open>0x80000200\<close> and fails.
\<close>

theorem read_dir_Cell_unmasked_counterexample:
  "seek_words (image_of ex_hi_words) 0x100 64 = Inr (0x80000200 # replicate 63 0)
   \<and> seek_words (image_of ex_hi_words) (0x80000200 AND 0x7FFFFFFF) 64 = Inr (0 # replicate 63 0)
   \<and> FetchFilePos Cell (image_of ex_hi_words) 0x100 7 0 1 (\<lambda>a. 0) (replicate 256 0)
       = Some (Inl ShortRead, (\<lambda>a. 0), [0x100, 0x80000200])"
proof -
  have a: "seek_words (image_of ex_hi_words) 0x100 64 = Inr (0x80000200 # replicate 63 0)"
    by (simp add: seek_words_image ex_hi_words_def)
  have b: "seek_words (image_of ex_hi_words) (0x80000200 AND 0x7FFFFFFF) 64 = Inr (0 # replicate 63 0)"
    by (simp add: seek_words_image ex_hi_words_def)
  have c: "seek_words (image_of ex_hi_words) 0x80000200 64 = Inl ShortRead"
    by (simp add: seek_words_def fread_words_def fread_def seekable_image length_content_image
        ex_hi_words_def)
  have "read_dir Cell (image_of ex_hi_words) 0x100 (replicate 256 0) []
        = (Inl ShortRead, [0x100, 0x80000200])"
    by (simp add: a c cell_block_def)
  hence "FetchFilePos Cell (image_of ex_hi_words) 0x100 7 0 1 (\<lambda>a. 0) (replicate 256 0)
       = Some (Inl ShortRead, (\<lambda>a. 0), [0x100, 0x80000200])"
    unfolding FetchFilePos_def by (subst FetchFilePos_loop.simps) (simp del: read_dir.simps)
  thus ?thesis using a b by simp
qed



section \<open>The probe loops of acbmp.c\<close>

text \<open>The hits of a probe in terms of the entries of the directory.\<close>

lemma hits_of_append: "hits_of es base (xs @ ys) = hits_of es base xs @ hits_of es base ys"
  by (induction xs) (auto split: option.splits)

lemma map_fst_hits_of:
  "map fst (hits_of es base is)
   = filter (\<lambda>k. map_of es k \<noteq> None) (map (\<lambda>i. base OR of_nat i) is)"
  by (induction "is") (auto split: option.splits)

lemma set_hits_of:
  "set (hits_of es base is) = {(k, v). (\<exists>i\<in>set is. k = base OR of_nat i) \<and> map_of es k = Some v}"
  by (induction "is") (auto split: option.splits)

lemma rebuild_from_keys:
  fixes zs :: "entry list"
  assumes "distinct (map fst zs)"
  shows "map (\<lambda>k. (k, the (map_of zs k))) (map fst zs) = zs"
proof -
  have "\<And>e. e \<in> set zs \<Longrightarrow> (fst e, the (map_of zs (fst e))) = e"
  proof -
    fix e assume "e \<in> set zs"
    hence "(fst e, snd e) \<in> set zs" by simp
    from map_of_is_SomeI [OF assms this] show "(fst e, the (map_of zs (fst e))) = e" by simp
  qed
  hence "map (\<lambda>e. (fst e, the (map_of zs (fst e)))) zs = zs" by (intro map_idI) simp
  thus ?thesis by (simp add: comp_def)
qed

lemma keys_sorted_unique:
  assumes "keys_sorted xs" "keys_sorted ys" "set xs = set ys"
  shows "xs = ys"
proof -
  have dx: "distinct (map fst xs)" and dy: "distinct (map fst ys)"
    using assms(1,2) by (simp_all add: keys_sorted_def strict_sorted_iff)
  have k: "map fst xs = map fst ys"
    using assms by (intro sorted_distinct_set_unique) (simp_all add: keys_sorted_def strict_sorted_iff)
  have m: "map_of xs = map_of ys" using dx dy assms(3) by (simp add: map_of_inject_set)
  have "xs = map (\<lambda>k. (k, the (map_of xs k))) (map fst xs)"
    using rebuild_from_keys [OF dx] by simp
  also have "\<dots> = map (\<lambda>k. (k, the (map_of ys k))) (map fst ys)" by (simp only: k m)
  also have "\<dots> = ys" using dy by (rule rebuild_from_keys)
  finally show ?thesis .
qed

text \<open>
  The keys \<open>base | i\<close> for \<open>i < 2 ^ n\<close>, when the low \<open>n\<close> bits of \<open>base\<close> are 0:
  they ascend with \<open>i\<close>, and they are the keys that agree with \<open>base\<close> above bit \<open>n\<close>.
\<close>

lemma low_of_nat: "i < 2 ^ n \<Longrightarrow> (of_nat i :: uint) AND mask n = of_nat i"
  by (simp add: take_bit_eq_mask [symmetric] take_bit_of_nat take_bit_nat_eq_self)

lemma split_mask: "(k :: uint) = (k AND NOT (mask n)) OR (k AND mask n)"
proof -
  have "k = k AND (NOT (mask n) OR mask n)" by simp
  also have "\<dots> = (k AND NOT (mask n)) OR (k AND mask n)" by (rule word_ao_dist2)
  finally show ?thesis .
qed

lemma probed_prefix:
  assumes "base AND mask n = (0 :: uint)" "i < 2 ^ n"
  shows "(base OR of_nat i) AND NOT (mask n) = base"
proof -
  have b: "(of_nat i :: uint) AND mask n = of_nat i" using assms(2) by (rule low_of_nat)
  have c: "base AND NOT (mask n) = base" using split_mask [of base n] assms(1) by simp
  have "(of_nat i :: uint) AND NOT (mask n) = ((of_nat i AND mask n) AND NOT (mask n))"
    by (simp only: b)
  also have "\<dots> = 0" by (simp add: and.assoc)
  finally have d: "(of_nat i :: uint) AND NOT (mask n) = 0" .
  show ?thesis unfolding word_ao_dist c d by simp
qed

lemma base_and_low:
  assumes "base AND mask n = (0 :: uint)" "i < 2 ^ n"
  shows "base AND of_nat i = 0"
proof -
  have "base AND of_nat i = base AND (of_nat i AND mask n)"
    using low_of_nat [OF assms(2)] by simp
  also have "\<dots> = (base AND mask n) AND of_nat i" by (simp add: ac_simps)
  finally show ?thesis using assms(1) by simp
qed

lemma unat_probed:
  assumes "base AND mask n = (0 :: uint)" "i < 2 ^ n" "n \<le> 32"
  shows "unat (base OR of_nat i) = unat base + i"
proof -
  have "(2 :: nat) ^ n \<le> 2 ^ 32" using assms(3) by (rule power_increasing) simp
  hence "i < 2 ^ 32" using assms(2) by simp
  hence i: "unat (of_nat i :: uint) = i" by (simp add: unat_of_nat)
  have e: "base + of_nat i = base OR of_nat i"
    using base_and_low [OF assms(1,2)] by (rule disjunctive_add_eq_or)
  have "base \<le> base OR of_nat i" by (rule le_word_or2)
  hence "base \<le> base + of_nat i" by (simp only: e)
  hence "unat base + unat (of_nat i :: uint) < 2 ^ LENGTH(32)" by (simp only: no_olen_add_nat)
  hence "unat (base + of_nat i) = unat base + unat (of_nat i :: uint)"
    by (rule unat_add_lem [THEN iffD1])
  thus ?thesis using i e by simp
qed

lemma probed_sorted:
  assumes "base AND mask n = (0 :: uint)" "n \<le> 32"
  shows "sorted_wrt (<) (map (\<lambda>i. base OR of_nat i) [0..<2 ^ n])"
proof -
  have "sorted_wrt (\<lambda>i j. base OR of_nat i < base OR of_nat j) [0..<2 ^ n]"
  proof (rule sorted_wrt_mono_rel [of _ "(<)"])
    show "sorted_wrt (<) [0..<(2::nat) ^ n]" by (rule sorted_wrt_upt)
  next
    fix i j :: nat assume "i \<in> set [0..<2 ^ n]" "j \<in> set [0..<2 ^ n]" "i < j"
    thus "base OR of_nat i < base OR of_nat j"
      using unat_probed [OF assms(1) _ assms(2), of i] unat_probed [OF assms(1) _ assms(2), of j]
      by (simp add: word_less_nat_alt)
  qed
  thus ?thesis by (simp add: sorted_wrt_map)
qed

lemma probed_keys:
  assumes "base AND mask n = (0 :: uint)"
  shows "(\<exists>i\<in>set [0..<2 ^ n]. k = base OR of_nat i) = (k AND NOT (mask n) = base)"
proof
  assume "\<exists>i\<in>set [0..<2 ^ n]. k = base OR of_nat i"
  thus "k AND NOT (mask n) = base" using probed_prefix [OF assms] by auto
next
  assume p: "k AND NOT (mask n) = base"
  have "unat (take_bit n k) < 2 ^ n" by (simp add: unsigned_take_bit_eq)
  hence u: "unat (k AND mask n) < 2 ^ n" by (simp add: take_bit_eq_mask)
  have e: "k = base OR (k AND mask n)" using split_mask [of k n] p by simp
  show "\<exists>i\<in>set [0..<2 ^ n]. k = base OR of_nat i"
  proof (rule bexI [of _ "unat (k AND mask n)"])
    show "k = base OR of_nat (unat (k AND mask n))" using e by simp
    show "unat (k AND mask n) \<in> set [0..<2 ^ n]" using u by simp
  qed
qed

lemma filter_keys_sorted: "keys_sorted es \<Longrightarrow> keys_sorted (filter P es)"
  unfolding keys_sorted_def by (induction es) auto

lemma hits_eq_filter:
  assumes "keys_sorted es" "base AND mask n = (0 :: uint)" "n \<le> 32"
  shows "hits_of es base [0..<2 ^ n] = filter (\<lambda>e. fst e AND NOT (mask n) = base) es"
proof (rule keys_sorted_unique)
  show "keys_sorted (hits_of es base [0..<2 ^ n])"
    unfolding keys_sorted_def map_fst_hits_of
    by (rule sorted_wrt_filter) (rule probed_sorted [OF assms(2,3)])
next
  show "keys_sorted (filter (\<lambda>e. fst e AND NOT (mask n) = base) es)"
    using assms(1) by (rule filter_keys_sorted)
next
  have d: "distinct (map fst es)" using assms(1) by (simp add: keys_sorted_def strict_sorted_iff)
  show "set (hits_of es base [0..<2 ^ n]) = set (filter (\<lambda>e. fst e AND NOT (mask n) = base) es)"
    unfolding set_hits_of probed_keys [OF assms(2)]
    using d by (auto simp: map_of_eq_Some_iff)
qed





lemma probe_total:
  assumes "laid Portal f root t" "keys_sorted (inorder t)" "length dir = 256" "fp \<noteq> ln"
    and "\<forall>k m. \<exists>m'. body k m = Some (Inr m')"
  shows "probe f root base is body fp ln mem dir = Some (hits_of (inorder t) base is, True)"
proof (induction "is" arbitrary: mem)
  case Nil
  then show ?case by simp
next
  case (Cons i "is")
  let ?k = "base OR of_nat i"
  from FetchFilePos_loop_map_of [OF assms(1,2,3), of ?k fp ln mem "[]"] obtain lg where
    r: "FetchFilePos Portal f root ?k fp ln mem dir = Some (outcome (inorder t) ?k fp ln mem lg)"
    by (auto simp: FetchFilePos_def)
  show ?case
  proof (cases "map_of (inorder t) ?k")
    case None
    thus ?thesis using r Cons.IH [of mem] by (simp add: outcome_def)
  next
    case (Some v)
    let ?m = "mem(fp := fst v, ln := snd v)"
    from assms(5) obtain m2 where b: "body ?k ?m = Some (Inr m2)" by blast
    thus ?thesis using r Some Cons.IH [of m2] assms(4) by (simp add: outcome_def)
  qed
qed

lemma ex_gfx_node_words:
  "node_words Portal (image_of ex_gfx_words) 1024
   = Some (mk_dir 0 [] [(0x04000001, 0x1000, 8), (0x05000001, 0x2000, 20),
                        (0x05010000, 0x3000, 20), (0x06000002, 0x4000, 16)])"
  by (simp add: seek_words_image ex_gfx_words_def)





text \<open>
  The two loops of acbmp.c themselves run over the 65536 values of the low 16 bits: their
  hits are the entries whose key agrees with the base above bit 16.
\<close>

lemma probe_acbmp:
  assumes "laid Portal f rootDirPtr t" and "keys_sorted (inorder t)"
    and "length dir = 256" and "fp \<noteq> ln" and "base AND mask 16 = 0"
    and "\<forall>k m. \<exists>m'. body k m = Some (Inr m')"
  shows "probe f rootDirPtr base [0..<65536] body fp ln mem dir
         = Some (filter (\<lambda>e. fst e AND NOT (mask 16) = base) (inorder t), True)"
  using probe_total [OF assms(1,2,3,4,6), of base "[0..<65536]" mem]
    hits_eq_filter [OF assms(2,5)] by simp

section \<open>The palette reference of a palettized graphic\<close>

lemma le32_le_bytes_nil: "le32 (le_bytes w) = w"
  using le32_le_bytes [of w "[]"] by simp

text \<open>
  Where the code takes the palette key from: for a record made of the four header words,
  \<open>W * H\<close> index bytes and whatever follows, it is the word at byte offset
  \<open>4 * ((W * H) div 4)\<close> behind the header, the index bytes counted in whole words
  rounded down.  Only this key is looked up, and only when the image type is 2.
\<close>

lemma palette_key_location:
  assumes "buf = concat (map le_bytes [imageId, imageType, imageW, imageH]) @ pixels @ rest"
    and "length pixels = unat imageW * unat imageH"
    and "4 * (length pixels div 4) + 4 \<le> length (pixels @ rest)"
    and "length buf < 2 ^ 32"
  shows "palette_key buf = Inr (le32 (drop (4 * (length pixels div 4)) (pixels @ rest)))
       \<and> texture_palette f rootDirPtr buf fp ln mem dir
           = (if imageType = 2
              then Inr (Some (FetchFilePos Portal f rootDirPtr
                     (le32 (drop (4 * (length pixels div 4)) (pixels @ rest))) fp ln mem dir))
              else Inr None)"
proof -
  have b: "buf = le_bytes imageId @ le_bytes imageType @ le_bytes imageW @ le_bytes imageH
                 @ pixels @ rest"
    using assms(1) by simp
  have lb: "length buf = 16 + length (pixels @ rest)" by (simp add: b)
  have w1: "word_at buf 1 = Inr imageType"
    using lb by (simp add: word_at_def) (simp add: b le32_le_bytes)
  have w2: "word_at buf 2 = Inr imageW"
    using lb by (simp add: word_at_def) (simp add: b le32_le_bytes)
  have w3: "word_at buf 3 = Inr imageH"
    using lb by (simp add: word_at_def) (simp add: b le32_le_bytes)
  have "unat imageW * unat imageH < 2 ^ 32" using assms(2,4) lb by simp
  hence "unat (imageH * imageW) = unat imageW * unat imageH"
    by (simp add: unat_word_ariths mult.commute)
  hence ix: "palPtrs_index imageW imageH = length pixels div 4 + 4"
    using assms(2) by (simp add: palPtrs_index_def)
  have "drop (4 * (length pixels div 4 + 4)) buf = drop (4 * (length pixels div 4)) (pixels @ rest)"
    by (simp add: b)
  hence pk: "palette_key buf = Inr (le32 (drop (4 * (length pixels div 4)) (pixels @ rest)))"
    unfolding palette_key_def w2 w3 sum.case ix
    using assms(3) lb by (simp add: word_at_def)
  show ?thesis unfolding texture_palette_def w1 pk by simp
qed

lemma ex_gfx_lookup:
  "FetchFilePos Portal (image_of ex_gfx_words) 1024 7 0 1 (\<lambda>a. 0) (replicate 256 0)
     = Some (Inl NotFound, (\<lambda>a. 0), [1024])"
  "FetchFilePos Portal (image_of ex_gfx_words) 1024 0x04000001 0 1 (\<lambda>a. 0) (replicate 256 0)
     = Some (Inr (), (\<lambda>a. 0)(0 := 0x1000, 1 := 8), [1024])"
proof -
  show "FetchFilePos Portal (image_of ex_gfx_words) 1024 7 0 1 (\<lambda>a. 0) (replicate 256 0)
     = Some (Inl NotFound, (\<lambda>a. 0), [1024])"
    unfolding FetchFilePos_def
    by (subst Portal_step [OF ex_gfx_node_words, where N = 4 and i = 0])
       (simp_all add: mk_dir_def entries_of_def nth_append upt_conv_Cons)
  show "FetchFilePos Portal (image_of ex_gfx_words) 1024 0x04000001 0 1 (\<lambda>a. 0) (replicate 256 0)
     = Some (Inr (), (\<lambda>a. 0)(0 := 0x1000, 1 := 8), [1024])"
    unfolding FetchFilePos_def
    by (subst Portal_step [OF ex_gfx_node_words, where N = 4 and i = 0])
       (simp_all add: mk_dir_def entries_of_def nth_append upt_conv_Cons)
qed

text \<open>
  Claim C9 (palette-reference location) on a 1 by 1 texture.  The index byte is padded to
  a whole word, so the list of palette keys starts at word 5 of the record, where the claim
  and the header comment of acbmp.c (\<^verbatim>\<open>A list of CLUTs follows the image information\<close>)
  put it.  The code divides \<open>W * H\<close> by 4 rounding down, takes word 4, the padded index
  byte, as the palette key, and the lookup of key 7 fails where the palette \<open>0x04000001\<close>
  is in the directory.
\<close>

theorem palette_key_truncated:
  "palPtrs_index 1 1 = 4 \<and> palPtrs_index_rounded_up 1 1 = 5
   \<and> word_at ex_tex_1x1 (palPtrs_index_rounded_up 1 1) = Inr 0x04000001
   \<and> palette_key ex_tex_1x1 = Inr 7
   \<and> texture_palette (image_of ex_gfx_words) 1024 ex_tex_1x1 0 1 (\<lambda>a. 0) (replicate 256 0)
       = Inr (Some (Some (Inl NotFound, (\<lambda>a. 0), [1024])))
   \<and> FetchFilePos Portal (image_of ex_gfx_words) 1024 0x04000001 0 1 (\<lambda>a. 0) (replicate 256 0)
       = Some (Inr (), (\<lambda>a. 0)(0 := 0x1000, 1 := 8), [1024])"
proof -
  have a: "palPtrs_index 1 1 = 4" "palPtrs_index_rounded_up 1 1 = 5"
    by (simp_all add: palPtrs_index_def palPtrs_index_rounded_up_def)
  have l: "length ex_tex_1x1 = 24" by (simp add: ex_tex_1x1_def)
  have e: "ex_tex_1x1 = le_bytes 0x05000001 @ le_bytes 2 @ le_bytes 1 @ le_bytes 1
                          @ le_bytes 7 @ le_bytes 0x04000001"
    by (simp add: ex_tex_1x1_def) (simp add: le_bytes_def)
  have w: "word_at ex_tex_1x1 2 = Inr 1" "word_at ex_tex_1x1 3 = Inr 1"
    "word_at ex_tex_1x1 4 = Inr 7" "word_at ex_tex_1x1 5 = Inr 0x04000001"
    by (simp_all add: word_at_def l) (simp_all add: e le32_le_bytes le32_le_bytes_nil)
  have w1: "word_at ex_tex_1x1 1 = Inr 2"
    by (simp add: word_at_def l) (simp add: e le32_le_bytes)
  have pk: "palette_key ex_tex_1x1 = Inr 7" by (simp add: a palette_key_def w)
  have tp: "texture_palette (image_of ex_gfx_words) 1024 ex_tex_1x1 0 1 (\<lambda>a. 0) (replicate 256 0)
       = Inr (Some (Some (Inl NotFound, (\<lambda>a. 0), [1024])))"
    unfolding texture_palette_def w1 pk sum.case ex_gfx_lookup(1) by simp
  show ?thesis using a w pk tp ex_gfx_lookup(2) by simp
qed

section \<open>Landblocks on the map\<close>

lemma unat_startX:
  fixes bx :: uint
  assumes "unat bx < 255" "x < 9"
  shows "unat (bx * 8 + of_nat x) = unat bx * 8 + x"
proof -
  have x: "unat (of_nat x :: uint) = x" using assms(2) by (simp add: unat_of_nat)
  have m: "unat (bx * 8) = unat bx * 8" using assms(1) by (simp add: unat_word_ariths)
  show ?thesis using assms m x by (simp add: unat_word_ariths)
qed

lemma unat_startY:
  fixes bw :: uint
  assumes "unat bw < 255" "y < 9"
  shows "unat (2041 - bw * 8 - 1 - of_nat y) = 2040 - unat bw * 8 - y"
proof -
  have u: "unat (bw * 8 + of_nat y) = unat bw * 8 + y" using assms by (rule unat_startX)
  hence le: "bw * 8 + of_nat y \<le> 2040" using assms by (simp add: word_le_nat_alt)
  have "2041 - bw * 8 - 1 - of_nat y = 2040 - (bw * 8 + of_nat y)" by simp
  also have "unat \<dots> = unat (2040 :: uint) - unat (bw * 8 + of_nat y)"
    using le by (rule unat_sub)
  finally show ?thesis using u by simp
qed

lemma unat_index:
  assumes "x < 9" "y < 9"
  shows "unat (of_nat x * 9 + of_nat y :: uint) = x * 9 + y"
  using assms by (simp add: unat_word_ariths unat_of_nat)

lemma for_each_region:
  assumes "\<And>i land out. i \<in> set is \<Longrightarrow>
             \<exists>land' out'. body i (land, out) = Some (land', out')
               \<and> (\<forall>r c. land' r c = (if (r, c) \<in> A i then h r c else land r c))"
  shows "\<exists>land' out'. for_each is body (land, out) = Some (land', out')
           \<and> (\<forall>r c. land' r c = (if (r, c) \<in> (\<Union>i\<in>set is. A i) then h r c else land r c))"
  using assms
proof (induction "is" arbitrary: land out)
  case Nil
  then show ?case by simp
next
  case (Cons i "is")
  from Cons.prems [of i land out] obtain land1 out1 where
    b: "body i (land, out) = Some (land1, out1)"
    and v1: "\<forall>r c. land1 r c = (if (r, c) \<in> A i then h r c else land r c)"
    by auto
  have "\<And>j land out. j \<in> set is \<Longrightarrow>
             \<exists>land' out'. body j (land, out) = Some (land', out')
               \<and> (\<forall>r c. land' r c = (if (r, c) \<in> A j then h r c else land r c))"
    using Cons.prems by simp
  from Cons.IH [OF this, of land1 out1] obtain land' out' where
    f: "for_each is body (land1, out1) = Some (land', out')"
    and v: "\<forall>r c. land' r c = (if (r, c) \<in> (\<Union>i\<in>set is. A i) then h r c else land1 r c)"
    by blast
  have "\<forall>r c. land' r c = (if (r, c) \<in> (\<Union>i\<in>set (i # is). A i) then h r c else land r c)"
    using v v1 by auto
  moreover have "for_each (i # is) body (land, out) = Some (land', out')"
    using b f by simp
  ultimately show ?case by blast
qed

lemma write_point_region:
  assumes "unat bx < 255" "unat bw < 255" "x < 9" "y < 9"
  shows "\<exists>land' out'.
      write_point sec (bx * 8) (2041 - bw * 8 - 1) (of_nat x) (of_nat y) (land, out)
        = Some (land', out')
      \<and> (\<forall>r c. land' r c =
            (if (r, c) \<in> {(2040 - unat bw * 8 - y, unat bx * 8 + x)}
             then sample sec (c - unat bx * 8) (2040 - unat bw * 8 - r) else land r c))"
proof -
  let ?R = "2040 - unat bw * 8 - y" and ?C = "unat bx * 8 + x"
  have R: "unat (2041 - bw * 8 - 1 - of_nat y) = ?R" using assms(2,4) by (rule unat_startY)
  have C: "unat (bx * 8 + of_nat x) = ?C" using assms(1,3) by (rule unat_startX)
  have I: "unat (of_nat x * 9 + of_nat y :: uint) = x * 9 + y" using assms(3,4) by (rule unat_index)
  have Cb: "?C < 2041" using assms(1,3) by simp
  have Rb: "?R < 2041" by arith
  have inv: "2040 - unat bw * 8 - ?R = y" using assms(2,4) by simp
  have "write_point sec (bx * 8) (2041 - bw * 8 - 1) (of_nat x) (of_nat y) (land, out)
        = Some (land(?R := (land ?R)(?C := sample sec x y)),
            (if used (land ?R ?C) \<noteq> 0 \<and> (type (land ?R ?C) \<noteq> type (sample sec x y)
                  \<or> z (land ?R ?C) \<noteq> z (sample sec x y))
             then out @ [(?C, ?R, type (land ?R ?C), z (land ?R ?C),
                          type (sample sec x y), z (sample sec x y))] else out))"
    unfolding write_point_def prod.case Let_def R C I using Cb Rb by (simp add: sample_def)
  moreover have "\<forall>r c. (land(?R := (land ?R)(?C := sample sec x y))) r c =
            (if (r, c) \<in> {(?R, ?C)}
             then sample sec (c - unat bx * 8) (2040 - unat bw * 8 - r) else land r c)"
    using inv by auto
  ultimately show ?thesis by blast
qed

lemma writeLandData_region:
  assumes "unat bx < 255" "unat bw < 255"
  shows "\<exists>land' out'. writeLandData sec bx bw (land, out) = Some (land', out')
      \<and> (\<forall>r c. land' r c =
            (if (r, c) \<in> (\<Union>x\<in>set [0..<9]. \<Union>y\<in>set [0..<9].
                             {(2040 - unat bw * 8 - y, unat bx * 8 + x)})
             then sample sec (c - unat bx * 8) (2040 - unat bw * 8 - r) else land r c))"
  unfolding writeLandData_def Let_def
  apply (rule for_each_region)
  apply (rule for_each_region)
  apply (rule write_point_region [OF assms])
   apply simp_all
  done

lemma m8: "(0xFF :: uint) = mask 8"
  by (simp add: mask_eq_exp_minus_1)

lemma unat_drop_bit_div: "unat (drop_bit n (w :: uint)) = unat w div 2 ^ n"
  unfolding unat_drop_bit_eq by (rule drop_bit_eq_div)

lemma drop24_small: "unat (drop_bit 24 (w :: uint)) < 256"
proof -
  have "unat w < 2 ^ 32" using unsigned_less [of w, where 'a = nat] by simp
  hence "unat w div 2 ^ 24 < 256" by (intro less_mult_imp_div_less) simp
  thus ?thesis by (simp only: unat_drop_bit_div)
qed

lemma and_ff_drop24: "drop_bit 24 (w :: uint) AND 0xFF = drop_bit 24 w"
proof -
  have "drop_bit 24 w < 2 ^ 8" using drop24_small [of w] by (simp add: word_less_nat_alt)
  hence "drop_bit 24 w AND mask 8 = drop_bit 24 w" by (rule less_mask_eq)
  thus ?thesis by (simp only: m8)
qed

lemma hi_byte:
  assumes "(w :: uint) AND 0xFF000000 \<noteq> 0xFF000000"
  shows "unat (drop_bit 24 w) < 255"
proof -
  let ?v = "w AND 0xFF000000"
  have "?v \<le> 0xFF000000" by (rule word_and_le1)
  hence "?v < 0xFF000000" using assms by simp
  hence "unat ?v < 255 * 2 ^ 24" by (simp add: word_less_nat_alt)
  hence "unat ?v div 2 ^ 24 < 255" by (rule less_mult_imp_div_less)
  hence "unat (drop_bit 24 ?v) < 255" by (simp only: unat_drop_bit_div)
  moreover have "drop_bit 24 ?v = drop_bit 24 w" using and_ff_drop24 [of w] by simp
  ultimately show ?thesis by simp
qed

lemma second_byte:
  assumes "(w :: uint) AND 0x00FF0000 \<noteq> 0x00FF0000"
  shows "unat (drop_bit 16 (w AND 0x00FF0000)) < 255"
proof -
  let ?v = "w AND 0x00FF0000"
  have "?v \<le> 0x00FF0000" by (rule word_and_le1)
  hence "?v < 0x00FF0000" using assms by simp
  hence "unat ?v < 255 * 2 ^ 16" by (simp add: word_less_nat_alt)
  hence "unat ?v div 2 ^ 16 < 255" by (rule less_mult_imp_div_less)
  thus ?thesis by (simp only: unat_drop_bit_div)
qed

text \<open>
  A landblock entry whose asserts hold and whose record is there: the block is written at
  the indices \<open>X\<close>, \<open>Y\<close> taken from the id word of the record, the second word of its
  sector; every cell outside the 9 by 9 region keeps what it held.
\<close>

lemma land_block_cells:
  assumes "dir ! (i * 3 + 0x3F + 1) = key" and "dir ! (i * 3 + 0x3F + 2) = off"
    and "dir ! (i * 3 + 0x3F + 3) = 252"
    and "key AND 0x0000FFFF = 0x0000FFFF"
    and "key AND 0xFF000000 \<noteq> 0xFF000000" and "key AND 0x00FF0000 \<noteq> 0x00FF0000"
    and "seekable f off" and "fread f (unat off) (4 * 64) = Some sec"
    and "le32 (drop 4 sec) = idw"
    and "idw AND 0xFF000000 \<noteq> 0xFF000000" and "idw AND 0x00FF0000 \<noteq> 0x00FF0000"
  shows "\<exists>land' out'. land_block f dir i ((land, out), found) = Inr ((land', out'), found + 1)
       \<and> (\<forall>x y. x \<le> 8 \<longrightarrow> y \<le> 8 \<longrightarrow>
             land' (2041 - 8 * unat (drop_bit 16 (idw AND 0x00FF0000)) - 1 - y)
                   (8 * unat (drop_bit 24 idw) + x) = sample sec x y)
       \<and> (\<forall>r c. \<not> (\<exists>x y. x \<le> 8 \<and> y \<le> 8
                      \<and> r = 2041 - 8 * unat (drop_bit 16 (idw AND 0x00FF0000)) - 1 - y
                      \<and> c = 8 * unat (drop_bit 24 idw) + x)
              \<longrightarrow> land' r c = land r c)"
proof -
  let ?X = "unat (drop_bit 24 idw)" and ?Y = "unat (drop_bit 16 (idw AND 0x00FF0000))"
  let ?A = "\<Union>x\<in>set [0..<9]. \<Union>y\<in>set [0..<9]. {(2040 - ?Y * 8 - y, ?X * 8 + x)}"
  have X: "?X < 255" using assms(10) by (rule hi_byte)
  have Y: "?Y < 255" using assms(11) by (rule second_byte)
  from writeLandData_region [OF X Y, of sec land out] obtain land' out' where
    w: "writeLandData sec (drop_bit 24 idw) (drop_bit 16 (idw AND 0x00FF0000)) (land, out)
          = Some (land', out')"
    and v: "\<forall>r c. land' r c =
            (if (r, c) \<in> ?A then sample sec (c - ?X * 8) (2040 - ?Y * 8 - r) else land r c)"
    by blast
  have lb: "land_block f dir i ((land, out), found) = Inr ((land', out'), found + 1)"
    unfolding land_block_def prod.case assms(1,2,3) using assms(4,5,6,7,8) w
    by (simp add: assms(9) del: drop_bit_and)
  have hit: "\<And>x y. x \<le> 8 \<Longrightarrow> y \<le> 8 \<Longrightarrow>
             land' (2041 - 8 * ?Y - 1 - y) (8 * ?X + x) = sample sec x y"
  proof -
    fix x y :: nat assume x: "x \<le> 8" and y: "y \<le> 8"
    have "(2040 - ?Y * 8 - y, ?X * 8 + x) \<in> ?A" using x y by auto
    hence "land' (2040 - ?Y * 8 - y) (?X * 8 + x)
           = sample sec (?X * 8 + x - ?X * 8) (2040 - ?Y * 8 - (2040 - ?Y * 8 - y))"
      using v by simp
    moreover have "2040 - ?Y * 8 - (2040 - ?Y * 8 - y) = y" using Y y by simp
    moreover have "2041 - 8 * ?Y - 1 - y = 2040 - ?Y * 8 - y" by simp
    ultimately show "land' (2041 - 8 * ?Y - 1 - y) (8 * ?X + x) = sample sec x y"
      by (simp add: mult.commute)
  qed
  have miss: "\<And>r c. \<not> (\<exists>x y. x \<le> 8 \<and> y \<le> 8 \<and> r = 2041 - 8 * ?Y - 1 - y \<and> c = 8 * ?X + x)
              \<Longrightarrow> land' r c = land r c"
  proof -
    fix r c assume n: "\<not> (\<exists>x y. x \<le> 8 \<and> y \<le> 8 \<and> r = 2041 - 8 * ?Y - 1 - y \<and> c = 8 * ?X + x)"
    have nin: "(r, c) \<notin> ?A"
    proof
      assume "(r, c) \<in> ?A"
      then obtain x y where "x < 9" "y < 9" "r = 2040 - ?Y * 8 - y" "c = ?X * 8 + x" by auto
      hence "x \<le> 8 \<and> y \<le> 8 \<and> r = 2041 - 8 * ?Y - 1 - y \<and> c = 8 * ?X + x" by simp
      with n show False by blast
    qed
    from v have "land' r c =
            (if (r, c) \<in> ?A then sample sec (c - ?X * 8) (2040 - ?Y * 8 - r) else land r c)"
      by blast
    thus "land' r c = land r c" using nin by (simp only: if_False)
  qed
  from lb hit miss show ?thesis by blast
qed

text \<open>
  Claim C8 (landblock placement), as the code has it.  For a landblock entry of the
  directory (key ending in \<open>FFFF\<close>, length 252, high and second byte of the key not
  \<open>FF\<close>) the block indices are taken from the id word of the record, the second word of
  its sector: with \<open>X\<close> its high byte and \<open>Y\<close> its second byte, both below 255, the block
  is written, and afterwards the cell at row \<open>2041 - 8 * Y - 1 - y\<close> and column
  \<open>8 * X + x\<close> holds the type code and the height code number \<open>x * 9 + y\<close> of the
  record with its used flag set, for all \<open>x, y \<le> 8\<close>.
\<close>

theorem land_block_placement:
  assumes "dir ! (i * 3 + 0x3F + 1) = key" and "dir ! (i * 3 + 0x3F + 2) = off"
    and "dir ! (i * 3 + 0x3F + 3) = 252"
    and "key AND 0x0000FFFF = 0x0000FFFF"
    and "key AND 0xFF000000 \<noteq> 0xFF000000" and "key AND 0x00FF0000 \<noteq> 0x00FF0000"
    and "seekable f off" and "fread f (unat off) (4 * 64) = Some sec"
    and "le32 (drop 4 sec) = idw"
    and "idw AND 0xFF000000 \<noteq> 0xFF000000" and "idw AND 0x00FF0000 \<noteq> 0x00FF0000"
    and "x \<le> 8" and "y \<le> 8"
  shows "\<exists>land' out'. land_block f dir i ((land, out), found) = Inr ((land', out'), found + 1)
       \<and> land' (2041 - 8 * unat (drop_bit 16 (idw AND 0x00FF0000)) - 1 - y)
                (8 * unat (drop_bit 24 idw) + x) = sample sec x y"
  using land_block_cells [OF assms(1-11), of land out found] assms(12,13) by blast

lemma ex_land_sec_length: "length ex_land_sec = 256" "length ex_moved_sec = 256"
  by (simp_all add: ex_land_sec_def ex_moved_sec_def)

lemma ex_land_sample:
  "sample ex_land_sec 5 3 = \<lparr>type = 0x4141, z = 50, used = 1\<rparr>"
  "sample ex_moved_sec 5 3 = \<lparr>type = 0x4141, z = 50, used = 1\<rparr>"
  by (simp_all add: sample_def le16_def ex_land_sec_def ex_moved_sec_def nth_append)

lemma ex_land_dir_entry:
  "ex_land_dir ! (0 * 3 + 0x3F + 1) = 0x0102FFFF" "ex_land_dir ! (0 * 3 + 0x3F + 2) = 0x100"
  "ex_land_dir ! (0 * 3 + 0x3F + 3) = 252"
  by (simp_all add: ex_land_dir_def)

theorem land_block_placement_witness:
  "le32 (drop 4 ex_land_sec) = 0x0102FFFF
   \<and> (\<exists>land' out'. land_block ex_land_file ex_land_dir 0
          ((\<lambda>r c. \<lparr>type = 0, z = 0, used = 0\<rparr>, []), 0) = Inr ((land', out'), 1)
        \<and> land' 2021 13 = \<lparr>type = 0x4141, z = 50, used = 1\<rparr>)"
proof -
  have k: "le32 (drop 4 ex_land_sec) = 0x0102FFFF"
    by (simp add: ex_land_sec_def le32_le_bytes)
  have f: "fread ex_land_file (unat (0x100 :: uint)) (4 * 64) = Some ex_land_sec"
    by (simp add: fread_def ex_land_file_def ex_land_sec_length)
  have x: "unat (drop_bit 24 (0x0102FFFF :: uint)) = 1"
    "unat (drop_bit 16 (0x0102FFFF AND 0x00FF0000 :: uint)) = 2"
    by (simp_all add: drop_bit_eq_div)
  from land_block_placement [OF ex_land_dir_entry _ _ _ _ f k, of 5 3
      "\<lambda>r c. \<lparr>type = 0, z = 0, used = 0\<rparr>" "[]" 0]
  show ?thesis using k by (simp add: ex_land_file_def x ex_land_sample del: drop_bit_and)
qed

text \<open>
  Claim C8 as stated fails when the id word of the record is not the key of its entry.
  The key \<open>0x0102FFFF\<close> decodes to \<open>X = 1\<close>, \<open>Y = 2\<close>, which puts the sample at
  column 5 and row 3 of the block into the cell at row 2021 and column 13.  The record
  carries the id \<open>0x0304FFFF\<close>: that cell is left as it was, and the sample is in the
  cell at row 2005 and column 29.
\<close>

theorem land_block_id_word_counterexample:
  "ex_land_dir ! 0x40 = 0x0102FFFF \<and> le32 (drop 4 ex_moved_sec) = 0x0304FFFF
   \<and> cell_after (land_block ex_moved_file ex_land_dir 0 (ex_blank_land, 0)) 2021 13
       = Some \<lparr>type = 0, z = 0, used = 0\<rparr>
   \<and> cell_after (land_block ex_moved_file ex_land_dir 0 (ex_blank_land, 0)) 2005 29
       = Some \<lparr>type = 0x4141, z = 50, used = 1\<rparr>"
proof -
  have k: "le32 (drop 4 ex_moved_sec) = 0x0304FFFF"
    by (simp add: ex_moved_sec_def le32_le_bytes)
  have f: "fread ex_moved_file (unat (0x100 :: uint)) (4 * 64) = Some ex_moved_sec"
    by (simp add: fread_def ex_moved_file_def ex_land_sec_length)
  have x: "unat (drop_bit 24 (0x0304FFFF :: uint)) = 3"
    "unat (drop_bit 16 (0x0304FFFF AND 0x00FF0000 :: uint)) = 4"
    by (simp_all add: drop_bit_eq_div)
  have s: "seekable ex_moved_file 0x100" by (simp add: ex_moved_file_def)
  from land_block_cells [OF ex_land_dir_entry _ _ _ s f k, of
      "\<lambda>r c. \<lparr>type = 0, z = 0, used = 0\<rparr>" "[]" 0]
  obtain land' out' where
    lb: "land_block ex_moved_file ex_land_dir 0
           ((\<lambda>r c. \<lparr>type = 0, z = 0, used = 0\<rparr>, []), 0) = Inr ((land', out'), 1)"
    and hit: "\<forall>x y. x \<le> 8 \<longrightarrow> y \<le> 8 \<longrightarrow>
             land' (2041 - 8 * 4 - 1 - y) (8 * 3 + x) = sample ex_moved_sec x y"
    and miss: "\<forall>r c. \<not> (\<exists>x y. x \<le> 8 \<and> y \<le> 8 \<and> r = 2041 - 8 * 4 - 1 - y \<and> c = 8 * 3 + x)
              \<longrightarrow> land' r c = \<lparr>type = 0, z = 0, used = 0\<rparr>"
    unfolding x by (auto simp del: drop_bit_and)
  have a: "land' 2021 13 = \<lparr>type = 0, z = 0, used = 0\<rparr>"
    by (rule miss [rule_format]) arith
  have b: "land' 2005 29 = \<lparr>type = 0x4141, z = 50, used = 1\<rparr>"
    using hit [rule_format, of 5 3] by (simp add: ex_land_sample)
  have d: "ex_land_dir ! 0x40 = 0x0102FFFF" by (simp add: ex_land_dir_def)
  show ?thesis using k d a b lb by (simp add: cell_after_def ex_blank_land_def)
qed

end
